theory Spec2Isabelle
  imports Main "HOL-Library.Word" "HOL-Library.Char_ord" "HOL-Library.Monad_Syntax"
begin

section \<open>Bytes and strings\<close>

text \<open>
  Go strings and byte slices are sequences of bytes; they are modelled as \<open>string\<close>
  (a list of 8-bit characters).  The helpers below are the standard-library functions the
  tunnel's code calls, restricted to what the code uses.
\<close>

definition CR :: char where "CR = CHR 0x0D"
definition LF :: char where "LF = CHR 0x0A"
definition crlf :: string where "crlf = [CR, LF]"

definition isASCII :: "char \<Rightarrow> bool" where
  "isASCII c = ((of_char c :: nat) < 128)"

definition isLower :: "char \<Rightarrow> bool" where
  "isLower c = (CHR ''a'' \<le> c \<and> c \<le> CHR ''z'')"

definition isUpper :: "char \<Rightarrow> bool" where
  "isUpper c = (CHR ''A'' \<le> c \<and> c \<le> CHR ''Z'')"

definition isDigit :: "char \<Rightarrow> bool" where
  "isDigit c = (CHR ''0'' \<le> c \<and> c \<le> CHR ''9'')"

text \<open>\<open>strings.ToLower\<close> on ASCII input: every byte in \<open>'A'..'Z'\<close> is moved by
  \<open>'a' - 'A'\<close>.  (On input with non-ASCII bytes Go maps Unicode runes; that part is not
  modelled, and the theorems that use \<open>toLower\<close> say so by assuming ASCII input.)\<close>

definition toLowerByte :: "char \<Rightarrow> char" where
  "toLowerByte c = (if isUpper c then char_of ((of_char c :: nat) + 32) else c)"

definition toLower :: "string \<Rightarrow> string" where
  "toLower s = map toLowerByte s"

section \<open>Utilities: tunnel names\<close>

text \<open>The character test of the loop body of \<open>tunnelNameValid\<close>.\<close>

definition isNameChar :: "char \<Rightarrow> bool" where
  "isNameChar c = (isLower c \<or> isDigit c \<or> c = CHR ''-'')"

text \<open>The \<open>for i := 0; i < len(tunnelName); i++\<close> loop of \<open>tunnelNameValid\<close>, entered with
  \<open>nameValid = true\<close>; the result is the value of \<open>nameValid\<close> when the loop is left.\<close>

function validLoop :: "string \<Rightarrow> nat \<Rightarrow> bool" where
  "validLoop s i =
     (if i < length s then
        (if isNameChar (s ! i) then
           (if s ! i = CHR ''-'' \<and> i + 1 < length s \<and> s ! (i + 1) = CHR ''-''
            then False
            else validLoop s (i + 1))
         else False)
      else True)"
  by pat_completeness auto
termination
  by (relation "measure (\<lambda>(s, i). length s - i)") auto

declare validLoop.simps [simp del]

definition tunnelNameValid :: "string \<Rightarrow> bool" where
  "tunnelNameValid tunnelName =
     (let nameValid = (length tunnelName < 50) in
      if tunnelName = [] \<or> \<not> nameValid then False
      else
        let t = toLower tunnelName;
            nameValid = (if t ! 0 = CHR ''-'' \<or> t ! (length t - 1) = CHR ''-''
                         then False else nameValid)
        in if nameValid then validLoop t 0 else nameValid)"

text \<open>The name pattern as the specification words it:
  \<open>^[a-z0-9](?!.*--)[a-z0-9-]*[a-z0-9]$\<close>, with \<open>$\<close> read as the end of the input.
  A first character from \<open>[a-z0-9]\<close>, then a rest that contains no \<open>--\<close>, consists of
  characters from \<open>[a-z0-9-]\<close> and ends with a character from \<open>[a-z0-9]\<close>.\<close>

definition isAlnumLower :: "char \<Rightarrow> bool" where
  "isAlnumLower c = (isLower c \<or> isDigit c)"

fun hasDashDash :: "string \<Rightarrow> bool" where
  "hasDashDash (a # b # cs) = ((a = CHR ''-'' \<and> b = CHR ''-'') \<or> hasDashDash (b # cs))"
| "hasDashDash _ = False"

definition specNamePattern :: "string \<Rightarrow> bool" where
  "specNamePattern s =
     (case s of
        [] \<Rightarrow> False
      | c # rest \<Rightarrow>
          isAlnumLower c \<and> \<not> hasDashDash rest \<and> rest \<noteq> [] \<and>
          list_all isNameChar (butlast rest) \<and> isAlnumLower (last rest))"


text \<open>Errors are values.  \<open>errors.New(msg)\<close> is \<open>ErrorString msg\<close>; the named errors are the
  sentinel values of \<open>io\<close> and \<open>bufio\<close> that the code compares against.\<close>

datatype error =
    EOF
  | ErrUnexpectedEOF
  | ErrNoProgress
  | ErrBufferFull
  | ErrLineTooLong
  | ErrorString string

text \<open>\<open>charMap\<close>, as \<open>init\<close> fills it: \<open>0..9\<close> to \<open>'0'..'9'\<close> and \<open>10..35\<close> to \<open>'a'..'z'\<close>.
  A Go map lookup of a missing key gives the zero rune.\<close>

definition charMap :: "nat \<rightharpoonup> char" where
  "charMap i =
     (if i \<le> 9 then Some (char_of (i + of_char CHR ''0''))
      else if i \<le> 35 then Some (char_of (of_char CHR ''a'' + i - 10))
      else None)"

definition charMapLookup :: "nat \<Rightarrow> char" where
  "charMapLookup i = (case charMap i of Some c \<Rightarrow> c | None \<Rightarrow> CHR 0x00)"

text \<open>One call of \<open>io.ReadFull(rand.Reader, randomBytes)\<close> with \<open>tunnelNameLength = 4\<close>:
  it fails, or it delivers four bytes.\<close>

datatype randRead = RandErr | RandBytes "8 word" "8 word" "8 word" "8 word"

definition generateRandomTunnelName :: "randRead \<Rightarrow> error + string" where
  "generateRandomTunnelName rr =
     (case rr of
        RandErr \<Rightarrow> Inl (ErrorString ''rand'')
      | RandBytes b0 b1 b2 b3 \<Rightarrow>
          Inr (map (\<lambda>b. charMapLookup (unat b mod 36)) [b0, b1, b2, b3]))"

text \<open>
  The name that four bytes stand for when each byte, taken mod 36, indexes the alphabet
  \<open>0-9a-z\<close>.
\<close>

abbreviation base36Name :: "8 word list \<Rightarrow> string" where
  "base36Name bs \<equiv> map (\<lambda>b. ''0123456789abcdefghijklmnopqrstuvwxyz'' ! (unat b mod 36)) bs"

section \<open>Forward handler: the tunnel registry\<close>

text \<open>
  \<open>sshTunnelListeners\<close> maps \<open>addr + tunnelName\<close> to the tunnel's data; \<open>forwards\<close> maps
  \<open>addr\<close> to a listener's data.  The connection handle and the request payload pointer of
  an entry are handles to the SSH session and are left out; a listener is named by the
  address it is bound to.  The handler runs the code below while it holds the table's lock;
  logging and the lines written to the session channel are left out.
\<close>

record sshTunnelsListenerData =
  sessionID :: string
  clientID :: string
  hostHeader :: "string option"
  connectionType :: string

record forwardsListenerData =
  fwListener :: string
  fwClientID :: string
  fwSessionID :: string
  fwConType :: string

text \<open>\<open>strconv.Itoa\<close> on a non-negative number, and \<open>net.JoinHostPort\<close>.\<close>

definition digitChar :: "nat \<Rightarrow> char" where
  "digitChar d = char_of (of_char CHR ''0'' + d)"

function itoa :: "nat \<Rightarrow> string" where
  "itoa n = (if n < 10 then [digitChar n] else itoa (n div 10) @ [digitChar (n mod 10)])"
  by pat_completeness auto
termination
  by (relation "measure id") auto

declare itoa.simps [simp del]

definition joinHostPort :: "string \<Rightarrow> string \<Rightarrow> string" where
  "joinHostPort host port =
     (if CHR '':'' \<in> set host then ''['' @ host @ '']:'' @ port else host @ '':'' @ port)"

text \<open>The client id the handler works with: the \<open>id=\<close> token of the exec command, or the
  session id when that is empty.\<close>

definition effectiveClientID :: "string \<Rightarrow> string \<Rightarrow> string" where
  "effectiveClientID idToken sid = (if idToken = [] then sid else idToken)"

text \<open>
  The \<open>for { if tunnelNameTakenOrInvalid { ... } else { break } }\<close> loop.  The list holds the
  results of the successive reads of the random source; the loop asks for one per round.
  \<open>None\<close> means that the list is used up and the loop is still running.
\<close>

fun nameLoop ::
  "(string \<rightharpoonup> sshTunnelsListenerData) \<Rightarrow> string \<Rightarrow> bool \<Rightarrow> string \<Rightarrow> randRead list
     \<Rightarrow> (error + string) option" where
  "nameLoop listeners addr False tunnelName rs = Some (Inr tunnelName)"
| "nameLoop listeners addr True tunnelName [] = None"
| "nameLoop listeners addr True tunnelName (r # rs) =
     (case generateRandomTunnelName r of
        Inl e \<Rightarrow> Some (Inl (ErrorString ''error generating tunnelName''))
      | Inr name \<Rightarrow> nameLoop listeners addr (listeners (addr @ name) \<noteq> None) name rs)"

text \<open>The branch of \<open>forwardHandler\<close> for \<open>type=http\<close> and \<open>type=https\<close>, up to the store
  into \<open>sshTunnelListeners\<close>: the name that is granted and the table after the call.\<close>

definition acquireHTTP ::
  "(string \<rightharpoonup> sshTunnelsListenerData) \<Rightarrow> string \<Rightarrow> string \<Rightarrow> string \<Rightarrow> string
     \<Rightarrow> string option \<Rightarrow> string \<Rightarrow> randRead list
     \<Rightarrow> (error + string \<times> (string \<rightharpoonup> sshTunnelsListenerData)) option" where
  "acquireHTTP listeners addr tunnelName cid sid header conType rs =
     (let nameValid = tunnelNameValid tunnelName;
          tunnelNameTakenOrInvalid =
            (if nameValid then
               (case listeners (addr @ tunnelName) of
                  Some s \<Rightarrow> (if clientID s = cid then False else True)
                | None \<Rightarrow> False)
             else True)
      in case nameLoop listeners addr tunnelNameTakenOrInvalid tunnelName rs of
           None \<Rightarrow> None
         | Some (Inl e) \<Rightarrow> Some (Inl e)
         | Some (Inr name) \<Rightarrow>
             Some (Inr (name,
               listeners(addr @ name \<mapsto>
                 \<lparr>sessionID = sid, clientID = cid, hostHeader = header,
                  connectionType = conType\<rparr>))))"

text \<open>The condition under which the requested name is kept: it is valid, and no entry
  exists under \<open>addr + tunnelName\<close> or the entry there has the caller's client id.\<close>

definition grantable ::
  "(string \<rightharpoonup> sshTunnelsListenerData) \<Rightarrow> string \<Rightarrow> string \<Rightarrow> string \<Rightarrow> bool" where
  "grantable listeners addr tunnelName cid =
     (tunnelNameValid tunnelName \<and>
      (case listeners (addr @ tunnelName) of None \<Rightarrow> True | Some s \<Rightarrow> clientID s = cid))"

text \<open>The scan \<open>for p := 1000; p <= 1<<16; p++\<close> of the TCP branch.  It returns
  \<open>requestBindPort\<close> (still 0 when no port was found) and \<open>addr\<close>, which every round
  overwrites.\<close>

function portScan ::
  "(string \<rightharpoonup> forwardsListenerData) \<Rightarrow> string \<Rightarrow> nat \<Rightarrow> string \<Rightarrow> nat \<times> string" where
  "portScan forwards bindAddr p addr =
     (if p \<le> 65536 then
        (let addr' = joinHostPort bindAddr (itoa p) in
         if forwards addr' = None then (p, addr')
         else portScan forwards bindAddr (p + 1) addr')
      else (0, addr))"
  by pat_completeness auto
termination
  by (relation "measure (\<lambda>(forwards, bindAddr, p, addr). 65537 - p)") auto

declare portScan.simps [simp del]

text \<open>
  The TCP branch of \<open>forwardHandler\<close>.  \<open>listenOK addr\<close> says whether the operating system
  lets \<open>net.Listen("tcp", addr)\<close> succeed.  When no entry exists the code still compares the
  zero entry's client id with the caller's and, if both are empty, closes a nil listener:
  that is \<open>TcpPanic\<close>.  A reply is the handler's result (\<open>ok\<close>, the bound port of
  \<open>remoteForwardSuccess\<close> if any) and the table after the call.
\<close>

datatype tcpResult =
    TcpPanic
  | TcpReply bool "nat option" "string \<rightharpoonup> forwardsListenerData"

definition tcpForward ::
  "(string \<Rightarrow> bool) \<Rightarrow> (string \<rightharpoonup> forwardsListenerData) \<Rightarrow> string \<Rightarrow> nat \<Rightarrow> string
     \<Rightarrow> string \<Rightarrow> tcpResult" where
  "tcpForward listenOK forwards bindAddr bindPort cid sid =
     (let addr0 = joinHostPort bindAddr (itoa bindPort);
          (requestBindPort, addr) =
             (if bindPort = 0 then portScan forwards bindAddr 1000 addr0
              else (bindPort, addr0));
          ok = (forwards addr \<noteq> None);
          oClientID = (case forwards addr of Some ent \<Rightarrow> fwClientID ent | None \<Rightarrow> [])
      in if \<not> ok \<or> oClientID = cid then
           (if oClientID = cid \<and> \<not> ok then TcpPanic
            else if \<not> listenOK addr then TcpReply False None forwards
            else TcpReply True (Some requestBindPort)
                   (forwards(addr \<mapsto>
                      \<lparr>fwListener = addr, fwClientID = cid, fwSessionID = sid,
                       fwConType = ''tcp''\<rparr>)))
         else TcpReply False None forwards)"

section \<open>Readers\<close>

text \<open>
  An \<open>io.Reader\<close> is a state together with a read function: \<open>rd s k\<close> is one call of
  \<open>Read\<close> with a destination of \<open>k\<close> bytes; it returns the bytes it stored at the start of
  the destination, the error, and the reader afterwards.

  A byte source such as a network connection is the list of the segments that its
  successive reads deliver, followed by its final error (\<open>EOF\<close> when the peer closes).  A
  read takes from the first segment only, as much as fits; it never returns bytes
  together with an error.
\<close>

type_synonym 's readFn = "'s \<Rightarrow> nat \<Rightarrow> string \<times> error option \<times> 's"

record source =
  segs :: "string list"
  final :: error

definition srcRead :: "source readFn" where
  "srcRead s k =
     (case segs s of
        [] \<Rightarrow> ([], Some (final s), s)
      | seg # rest \<Rightarrow>
          (take k seg, None,
           s\<lparr>segs := (if drop k seg = [] then rest else drop k seg # rest)\<rparr>))"

text \<open>A change \<open>f\<close> of the reader's state that the read function does not notice, on
  states that satisfy \<open>P\<close>: the read returns the same bytes and error, and leaves the
  changed state changed in the same way.\<close>

definition commutes :: "'s readFn \<Rightarrow> ('s \<Rightarrow> 's) \<Rightarrow> ('s \<Rightarrow> bool) \<Rightarrow> bool" where
  "commutes rd f P =
     (\<forall>s k. P s \<longrightarrow> (case rd s k of (d, e, s') \<Rightarrow> rd (f s) k = (d, e, f s') \<and> P s'))"

text \<open>\<open>x[i:j]\<close>, and \<open>copy(x[i:], data)\<close> for data that fits, on a list.\<close>

definition slice :: "'a list \<Rightarrow> nat \<Rightarrow> nat \<Rightarrow> 'a list" where
  "slice xs i j = take (j - i) (drop i xs)"

definition overwrite :: "'a list \<Rightarrow> nat \<Rightarrow> 'a list \<Rightarrow> 'a list" where
  "overwrite xs i data = take i xs @ data @ drop (i + length data) xs"

text \<open>The same on an array kept as a store, a function from indices to bytes.\<close>

definition sliceOf :: "(nat \<Rightarrow> 'a) \<Rightarrow> nat \<Rightarrow> nat \<Rightarrow> 'a list" where
  "sliceOf m i j = map m [i..<j]"

definition overwriteAt :: "(nat \<Rightarrow> 'a) \<Rightarrow> nat \<Rightarrow> 'a list \<Rightarrow> (nat \<Rightarrow> 'a)" where
  "overwriteAt m i data = (\<lambda>j. if i \<le> j \<and> j < i + length data then data ! (j - i) else m j)"

subsection \<open>\<open>bufio.Reader\<close>\<close>

text \<open>
  The standard library's buffered reader, as far as the chunked reader uses it: the
  buffer \<open>buf\<close> (a store of \<open>len(buf)\<close> bytes), the read and write positions \<open>r\<close> and
  \<open>w\<close>, and the pending error.  The underlying reader is passed along beside it.  The
  slice that \<open>ReadSlice\<close> returns shares its memory with \<open>buf\<close>: it is modelled as a view,
  an offset and a length, and its contents are whatever \<open>buf\<close> holds when the view is
  read.
\<close>

record bufioReader =
  rdBuf :: "nat \<Rightarrow> char"
  rdSize :: nat
  rdR :: nat
  rdW :: nat
  rdErr :: "error option"

type_synonym view = "nat \<times> nat"

definition viewBytes :: "bufioReader \<Rightarrow> view \<Rightarrow> string" where
  "viewBytes b v = sliceOf (rdBuf b) (fst v) (fst v + snd v)"

definition newBufioReader :: "nat \<Rightarrow> bufioReader" where
  "newBufioReader sz =
     \<lparr>rdBuf = (\<lambda>i. CHR 0x00), rdSize = sz, rdR = 0, rdW = 0, rdErr = None\<rparr>"

definition defaultBufSize :: nat where "defaultBufSize = 4096"

definition Buffered :: "bufioReader \<Rightarrow> nat" where
  "Buffered b = rdW b - rdR b"

definition readErr :: "bufioReader \<Rightarrow> error option \<times> bufioReader" where
  "readErr b = (rdErr b, b\<lparr>rdErr := None\<rparr>)"

text \<open>The loop of \<open>fill\<close>: at most \<open>maxConsecutiveEmptyReads = 100\<close> reads.\<close>

fun fillLoop :: "'s readFn \<Rightarrow> nat \<Rightarrow> bufioReader \<Rightarrow> 's \<Rightarrow> bufioReader \<times> 's" where
  "fillLoop rd 0 b s = (b\<lparr>rdErr := Some ErrNoProgress\<rparr>, s)"
| "fillLoop rd (Suc i) b s =
     (case rd s (rdSize b - rdW b) of
        (data, e, s') \<Rightarrow>
          (let b1 = b\<lparr>rdBuf := overwriteAt (rdBuf b) (rdW b) data, rdW := rdW b + length data\<rparr>
           in case e of
                Some err \<Rightarrow> (b1\<lparr>rdErr := Some err\<rparr>, s')
              | None \<Rightarrow> if length data > 0 then (b1, s') else fillLoop rd i b1 s'))"

definition fill :: "'s readFn \<Rightarrow> bufioReader \<Rightarrow> 's \<Rightarrow> bufioReader \<times> 's" where
  "fill rd b s =
     (let b1 = (if rdR b > 0
                then b\<lparr>rdBuf := overwriteAt (rdBuf b) 0 (sliceOf (rdBuf b) (rdR b) (rdW b)),
                       rdW := rdW b - rdR b, rdR := 0\<rparr>
                else b)
      in fillLoop rd 100 b1 s)"

fun indexByte :: "string \<Rightarrow> char \<Rightarrow> nat option" where
  "indexByte [] c = None"
| "indexByte (x # xs) c = (if x = c then Some 0 else map_option Suc (indexByte xs c))"

text \<open>\<open>ReadSlice('\n')\<close>.  \<open>s0\<close> is the search start index \<open>s\<close> of the loop.\<close>

partial_function (option) readSliceLoop ::
  "'s readFn \<Rightarrow> bufioReader \<Rightarrow> 's \<Rightarrow> nat \<Rightarrow> (view \<times> error option \<times> bufioReader \<times> 's) option" where
  "readSliceLoop rd b s s0 =
     (case indexByte (sliceOf (rdBuf b) (rdR b + s0) (rdW b)) LF of
        Some i \<Rightarrow>
          Some ((rdR b, i + s0 + 1), None, b\<lparr>rdR := rdR b + (i + s0) + 1\<rparr>, s)
      | None \<Rightarrow>
          if rdErr b \<noteq> None then
            (case readErr (b\<lparr>rdR := rdW b\<rparr>) of
               (e, b') \<Rightarrow> Some ((rdR b, rdW b - rdR b), e, b', s))
          else if Buffered b \<ge> rdSize b then
            Some ((0, rdSize b), Some ErrBufferFull, b\<lparr>rdR := rdW b\<rparr>, s)
          else
            (case fill rd b s of (b', s') \<Rightarrow> readSliceLoop rd b' s' (rdW b - rdR b)))"

declare readSliceLoop.simps [code]

definition ReadSlice ::
  "'s readFn \<Rightarrow> bufioReader \<Rightarrow> 's \<Rightarrow> (view \<times> error option \<times> bufioReader \<times> 's) option" where
  "ReadSlice rd b s = readSliceLoop rd b s 0"

text \<open>\<open>(b *Reader) Read(p)\<close> with \<open>len(p) = k\<close>.\<close>

definition copyOut :: "bufioReader \<Rightarrow> 's \<Rightarrow> nat \<Rightarrow> string \<times> error option \<times> bufioReader \<times> 's" where
  "copyOut b s k =
     (let bs = take k (sliceOf (rdBuf b) (rdR b) (rdW b))
      in (bs, None, b\<lparr>rdR := rdR b + length bs\<rparr>, s))"

definition bufioRead ::
  "'s readFn \<Rightarrow> bufioReader \<Rightarrow> 's \<Rightarrow> nat \<Rightarrow> string \<times> error option \<times> bufioReader \<times> 's" where
  "bufioRead rd b s k =
     (if k = 0 then
        (if Buffered b > 0 then ([], None, b, s)
         else (case readErr b of (e, b') \<Rightarrow> ([], e, b', s)))
      else if rdR b = rdW b then
        (if rdErr b \<noteq> None then (case readErr b of (e, b') \<Rightarrow> ([], e, b', s))
         else if k \<ge> rdSize b then
           (case rd s k of
              (data, e, s') \<Rightarrow>
                (case readErr (b\<lparr>rdErr := e\<rparr>) of (e', b') \<Rightarrow> (data, e', b', s')))
         else
           (case rd s (rdSize b) of
              (data, e, s') \<Rightarrow>
                (let b1 = b\<lparr>rdBuf := overwriteAt (rdBuf b) 0 data, rdR := 0, rdW := 0, rdErr := e\<rparr>
                 in if length data = 0
                    then (case readErr b1 of (e', b') \<Rightarrow> ([], e', b', s'))
                    else copyOut (b1\<lparr>rdW := length data\<rparr>) s' k)))
      else copyOut b s k)"

text \<open>\<open>io.ReadFull(r, buf[:2])\<close> on the buffered reader: the loop of \<open>io.ReadAtLeast\<close>.
  \<open>dst\<close> is the two-byte destination, \<open>n\<close> the count so far.\<close>

partial_function (option) readFullLoop ::
  "'s readFn \<Rightarrow> bufioReader \<Rightarrow> 's \<Rightarrow> string \<Rightarrow> nat \<Rightarrow> error option
     \<Rightarrow> (string \<times> nat \<times> error option \<times> bufioReader \<times> 's) option" where
  "readFullLoop rd b s dst n e =
     (if n < 2 \<and> e = None then
        (case bufioRead rd b s (2 - n) of
           (data, e', b', s') \<Rightarrow>
             readFullLoop rd b' s' (overwrite dst n data) (n + length data) e')
      else if n \<ge> 2 then Some (dst, n, None, b, s)
      else if n > 0 \<and> e = Some EOF then Some (dst, n, Some ErrUnexpectedEOF, b, s)
      else Some (dst, n, e, b, s))"

declare readFullLoop.simps [code]

subsection \<open>The chunked reader\<close>

definition maxLineLength :: nat where "maxLineLength = 4096"

text \<open>
  \<open>outputSlice\<close> is the length of what is left of the caller's slice, \<open>outputWritten\<close>
  the bytes stored into the caller's slice so far by the current call.
  \<open>unreadBytesInChunk\<close> is a \<open>uint64\<close>: \<open>parseHexUint\<close> produces values below \<open>2^64\<close> and the
  code only ever subtracts a count that is not larger, so it is a natural number here.
  \<open>line\<close> is a view of the buffered reader's buffer (\<open>nil\<close> is the empty view).
\<close>

record chunkedReader =
  unreadBytesInChunk :: nat
  cpErr :: "error option"
  cpBuf :: string
  checkEnd :: bool
  outputSlice :: nat
  outputWritten :: string
  outputBytesFromBody :: nat
  outputTotalBytesWritten :: nat
  line :: view
  unwrittenBytesInBuffer :: nat

definition newChunkedReader :: chunkedReader where
  "newChunkedReader =
     \<lparr>unreadBytesInChunk = 0, cpErr = None, cpBuf = [CHR 0x00, CHR 0x00], checkEnd = False,
      outputSlice = 0, outputWritten = [], outputBytesFromBody = 0,
      outputTotalBytesWritten = 0, line = (0, 0), unwrittenBytesInBuffer = 0\<rparr>"

definition isASCIISpace :: "char \<Rightarrow> bool" where
  "isASCIISpace b = (b = CHR '' '' \<or> b = CHR 0x09 \<or> b = LF \<or> b = CR)"

function trimTrailingWhitespace :: "string \<Rightarrow> string" where
  "trimTrailingWhitespace b =
     (if length b > 0 \<and> isASCIISpace (b ! (length b - 1))
      then trimTrailingWhitespace (take (length b - 1) b) else b)"
  by pat_completeness auto
termination
  by (relation "measure length") auto

declare trimTrailingWhitespace.simps [simp del]

text \<open>\<open>removeChunkExtension\<close>: \<open>bytes.Cut(p, ";")\<close> keeps what is before the first \<open>;\<close>.\<close>

definition removeChunkExtension :: "string \<Rightarrow> string" where
  "removeChunkExtension p = takeWhile (\<lambda>c. c \<noteq> CHR '';'') p"

text \<open>\<open>parseHexUint\<close>: the loop over the bytes of \<open>v\<close>, with index \<open>i\<close> and accumulator
  \<open>n\<close>.\<close>

definition hexDigit :: "char \<Rightarrow> 64 word option" where
  "hexDigit b =
     (if CHR ''0'' \<le> b \<and> b \<le> CHR ''9'' then Some (of_nat (of_char b - of_char CHR ''0''))
      else if CHR ''a'' \<le> b \<and> b \<le> CHR ''f'' then Some (of_nat (of_char b - of_char CHR ''a'' + 10))
      else if CHR ''A'' \<le> b \<and> b \<le> CHR ''F'' then Some (of_nat (of_char b - of_char CHR ''A'' + 10))
      else None)"

fun parseHexLoop :: "string \<Rightarrow> nat \<Rightarrow> 64 word \<Rightarrow> error + 64 word" where
  "parseHexLoop [] i n = Inr n"
| "parseHexLoop (b # v) i n =
     (case hexDigit b of
        None \<Rightarrow> Inl (ErrorString ''invalid byte in chunk length'')
      | Some d \<Rightarrow>
          if i = 16 then Inl (ErrorString ''http chunk length too large'')
          else parseHexLoop v (i + 1) (or (push_bit 4 n) d))"

definition parseHexUint :: "string \<Rightarrow> error + 64 word" where
  "parseHexUint v = parseHexLoop v 0 0"

text \<open>\<open>readChunkLine\<close>: it sets \<open>cp.line\<close> and \<open>cp.unwrittenBytesInBuffer\<close> and returns the
  trimmed line or an error.\<close>

definition readChunkLine ::
  "'s readFn \<Rightarrow> chunkedReader \<Rightarrow> bufioReader \<Rightarrow> 's
     \<Rightarrow> ((error + string) \<times> chunkedReader \<times> bufioReader \<times> 's) option" where
  "readChunkLine rd cp b s =
     (case ReadSlice rd b s of
        None \<Rightarrow> None
      | Some (v, e, b', s') \<Rightarrow>
          (let cp1 = cp\<lparr>line := v, unwrittenBytesInBuffer := snd v\<rparr> in
           case e of
             Some err \<Rightarrow>
               Some (Inl (if err = EOF then ErrUnexpectedEOF
                          else if err = ErrBufferFull then ErrLineTooLong else err),
                     cp1, b', s')
           | None \<Rightarrow>
               if snd v \<ge> maxLineLength then Some (Inl ErrLineTooLong, cp1, b', s')
               else Some (Inr (removeChunkExtension (trimTrailingWhitespace (viewBytes b' v))),
                          cp1, b', s')))"

definition beginChunk ::
  "'s readFn \<Rightarrow> chunkedReader \<Rightarrow> bufioReader \<Rightarrow> 's \<Rightarrow> (chunkedReader \<times> bufioReader \<times> 's) option" where
  "beginChunk rd cp b s =
     (case readChunkLine rd cp b s of
        None \<Rightarrow> None
      | Some (Inl err, cp1, b', s') \<Rightarrow> Some (cp1\<lparr>cpErr := Some err\<rparr>, b', s')
      | Some (Inr ln, cp1, b', s') \<Rightarrow>
          (case parseHexUint ln of
             Inl err \<Rightarrow> Some (cp1\<lparr>unreadBytesInChunk := 0, cpErr := Some err\<rparr>, b', s')
           | Inr n \<Rightarrow> Some (cp1\<lparr>unreadBytesInChunk := unat n, cpErr := None\<rparr>, b', s')))"

definition chunkHeaderAvailable :: "bufioReader \<Rightarrow> bool" where
  "chunkHeaderAvailable b =
     (let bufferedCount = Buffered b in
      if bufferedCount > 0
      then indexByte (sliceOf (rdBuf b) (rdR b) (rdR b + bufferedCount)) LF \<noteq> None
      else False)"

definition flushFooter :: "chunkedReader \<Rightarrow> chunkedReader" where
  "flushFooter cp =
     (let n0 = min (outputSlice cp) (unwrittenBytesInBuffer cp);
          data = take n0 (drop (length (cpBuf cp) - unwrittenBytesInBuffer cp) (cpBuf cp));
          cp1 = cp\<lparr>outputTotalBytesWritten := outputTotalBytesWritten cp + n0,
                   outputWritten := outputWritten cp @ data,
                   outputSlice := outputSlice cp - n0,
                   unwrittenBytesInBuffer := unwrittenBytesInBuffer cp - n0\<rparr>
      in if unwrittenBytesInBuffer cp1 = 0 then cp1\<lparr>checkEnd := False\<rparr> else cp1)"

definition flushLine :: "chunkedReader \<Rightarrow> bufioReader \<Rightarrow> chunkedReader" where
  "flushLine cp b =
     (let n0 = min (outputSlice cp) (unwrittenBytesInBuffer cp);
          ln = viewBytes b (line cp);
          data = take n0 (drop (length ln - unwrittenBytesInBuffer cp) ln)
      in cp\<lparr>outputTotalBytesWritten := outputTotalBytesWritten cp + n0,
             outputWritten := outputWritten cp @ data,
             outputSlice := outputSlice cp - n0,
             unwrittenBytesInBuffer := unwrittenBytesInBuffer cp - n0\<rparr>)"

text \<open>
  The body of the loop of \<open>chunkedReader.Read\<close> falls into the block guarded by
  \<open>cp.checkEnd\<close>, the block that writes a pending line, and the rest.  A block ends the
  loop (\<open>break\<close>), starts the next round (\<open>continue\<close>) or falls through to the next block.
\<close>

datatype 'a flow = Break 'a | Continue 'a | Next 'a

text \<open>The state of the underlying reader that a step of the loop hands on.\<close>

fun flowState :: "('a \<times> 'b \<times> 's) flow \<Rightarrow> 's" where
  "flowState (Break (cp, b, s)) = s"
| "flowState (Continue (cp, b, s)) = s"
| "flowState (Next (cp, b, s)) = s"

definition zeroLine :: string where "zeroLine = [CHR ''0'', CR, LF]"

definition checkEndBlock ::
  "'s readFn \<Rightarrow> chunkedReader \<Rightarrow> bufioReader \<Rightarrow> 's
     \<Rightarrow> (chunkedReader \<times> bufioReader \<times> 's) flow option" where
  "checkEndBlock rd cp b s =
     (if outputBytesFromBody cp > 0 \<and> Buffered b < 2 \<and> unwrittenBytesInBuffer cp = 0
      then Some (Break (cp, b, s))
      else
        (case (if unwrittenBytesInBuffer cp = 0
               then (case readFullLoop rd b s (cpBuf cp) 0 None of
                       None \<Rightarrow> None
                     | Some (dst, n, e, b', s') \<Rightarrow>
                         (let cp1 = cp\<lparr>cpBuf := dst, unwrittenBytesInBuffer := n, cpErr := e\<rparr>
                          in if e = None then
                               (if cpBuf cp1 \<noteq> crlf
                                then Some (Break
                                  (cp1\<lparr>cpErr := Some (ErrorString ''malformed chunked encoding'')\<rparr>,
                                   b', s'))
                                else Some (Next (cp1, b', s')))
                             else if e = Some EOF
                               then Some (Break (cp1\<lparr>cpErr := Some ErrUnexpectedEOF\<rparr>, b', s'))
                               else Some (Break (cp1, b', s'))))
               else Some (Next (cp, b, s))) of
           None \<Rightarrow> None
         | Some (Break x) \<Rightarrow> Some (Break x)
         | Some (Continue x) \<Rightarrow> Some (Continue x)
         | Some (Next (cp1, b1, s1)) \<Rightarrow>
             if outputSlice cp1 = 0 then Some (Break (cp1, b1, s1))
             else
               (let cp2 = flushFooter cp1 in
                if unreadBytesInChunk cp2 = 0 \<and> unwrittenBytesInBuffer cp2 = 0 \<and>
                   viewBytes b1 (line cp2) = zeroLine
                then Some (Continue (cp2\<lparr>cpErr := Some EOF\<rparr>, b1, s1))
                else Some (Next (cp2, b1, s1)))))"

definition pendingLineBlock ::
  "chunkedReader \<Rightarrow> bufioReader \<Rightarrow> 's \<Rightarrow> (chunkedReader \<times> bufioReader \<times> 's) flow" where
  "pendingLineBlock cp b s =
     (if outputSlice cp = 0 then Break (cp, b, s)
      else
        (let cp1 = flushLine cp b in
         if unwrittenBytesInBuffer cp1 \<noteq> 0 then Break (cp1, b, s)
         else if unreadBytesInChunk cp1 = 0 then
           (if viewBytes b (line cp1) = zeroLine
            then Continue (cp1\<lparr>checkEnd := True\<rparr>, b, s)
            else Continue (cp1\<lparr>cpErr := Some EOF\<rparr>, b, s))
         else Next (cp1, b, s)))"

definition bodyBlock ::
  "'s readFn \<Rightarrow> chunkedReader \<Rightarrow> bufioReader \<Rightarrow> 's \<Rightarrow> chunkedReader \<times> bufioReader \<times> 's" where
  "bodyBlock rd cp b s =
     (let tmpLen = (if outputSlice cp > unreadBytesInChunk cp
                    then unreadBytesInChunk cp else outputSlice cp)
      in case bufioRead rd b s tmpLen of
           (data, e, b', s') \<Rightarrow>
             (let n0 = length data;
                  cp1 = cp\<lparr>cpErr := e,
                           outputSlice := outputSlice cp - n0,
                           outputWritten := outputWritten cp @ data,
                           outputTotalBytesWritten := outputTotalBytesWritten cp + n0,
                           outputBytesFromBody := outputBytesFromBody cp + n0,
                           unreadBytesInChunk := unreadBytesInChunk cp - n0\<rparr>
              in (if unreadBytesInChunk cp1 = 0 \<and> cpErr cp1 = None
                  then cp1\<lparr>checkEnd := True\<rparr>
                  else if cpErr cp1 = Some EOF then cp1\<lparr>cpErr := Some ErrUnexpectedEOF\<rparr>
                  else cp1,
                  b', s')))"

partial_function (option) chunkLoop ::
  "'s readFn \<Rightarrow> chunkedReader \<Rightarrow> bufioReader \<Rightarrow> 's \<Rightarrow> (chunkedReader \<times> bufioReader \<times> 's) option" where
  "chunkLoop rd cp b s =
     (if cpErr cp \<noteq> None then Some (cp, b, s)
      else
        (case (if checkEnd cp then checkEndBlock rd cp b s else Some (Next (cp, b, s))) of
           None \<Rightarrow> None
         | Some (Break x) \<Rightarrow> Some x
         | Some (Continue (cp1, b1, s1)) \<Rightarrow> chunkLoop rd cp1 b1 s1
         | Some (Next (cp1, b1, s1)) \<Rightarrow>
             (case (if unwrittenBytesInBuffer cp1 > 0 then pendingLineBlock cp1 b1 s1
                    else Next (cp1, b1, s1)) of
                Break x \<Rightarrow> Some x
              | Continue (cp2, b2, s2) \<Rightarrow> chunkLoop rd cp2 b2 s2
              | Next (cp2, b2, s2) \<Rightarrow>
                  if unreadBytesInChunk cp2 = 0 then
                    (if outputBytesFromBody cp2 > 0 \<and> \<not> chunkHeaderAvailable b2
                     then Some (cp2, b2, s2)
                     else (case beginChunk rd cp2 b2 s2 of
                             None \<Rightarrow> None
                           | Some (cp3, b3, s3) \<Rightarrow> chunkLoop rd cp3 b3 s3))
                  else if outputSlice cp2 = 0 then Some (cp2, b2, s2)
                  else (case bodyBlock rd cp2 b2 s2 of
                          (cp3, b3, s3) \<Rightarrow> chunkLoop rd cp3 b3 s3))))"

declare chunkLoop.simps [code]

text \<open>
  \<open>chunkedReader.Read(output)\<close> with \<open>len(output) = k\<close>: the bytes stored into \<open>output\<close>
  (their number is the returned count), the returned error, and the reader afterwards.
  \<open>None\<close>: the call does not return.
\<close>

definition chunkedRead ::
  "'s readFn \<Rightarrow> chunkedReader \<times> bufioReader \<times> 's \<Rightarrow> nat
     \<Rightarrow> (string \<times> error option \<times> (chunkedReader \<times> bufioReader \<times> 's)) option" where
  "chunkedRead rd st k =
     (case st of
        (cp, b, s) \<Rightarrow>
          (case chunkLoop rd
                  (cp\<lparr>outputSlice := k, outputWritten := [], outputTotalBytesWritten := 0,
                      outputBytesFromBody := 0\<rparr>) b s of
             None \<Rightarrow> None
           | Some (cp', b', s') \<Rightarrow> Some (outputWritten cp', cpErr cp', (cp', b', s'))))"

text \<open>\<open>NewChunkedReader(r)\<close> for a reader \<open>r\<close> that is not a \<open>*bufio.Reader\<close>: it is wrapped by
  \<open>bufio.NewReader(r)\<close>, with the default buffer size.\<close>

definition NewChunkedReader :: "'s \<Rightarrow> chunkedReader \<times> bufioReader \<times> 's" where
  "NewChunkedReader r = (newChunkedReader, newBufioReader defaultBufSize, r)"

text \<open>Reading a reader to its end with destinations of \<open>k\<close> bytes, as \<open>io.Copy\<close> does with its
  buffer: the bytes of all reads, and the error that ended the reading.  The list
  \<open>acc\<close> holds what was read so far.\<close>

partial_function (option) readToEnd ::
  "'s readFn \<Rightarrow> chunkedReader \<times> bufioReader \<times> 's \<Rightarrow> nat \<Rightarrow> string
     \<Rightarrow> (string \<times> error) option" where
  "readToEnd rd st k acc =
     (case chunkedRead rd st k of
        None \<Rightarrow> None
      | Some (data, Some e, st') \<Rightarrow> Some (acc @ data, e)
      | Some (data, None, st') \<Rightarrow> readToEnd rd st' k (acc @ data))"

declare readToEnd.simps [code]

section \<open>HTTP processor\<close>

subsection \<open>Standard-library functions on strings\<close>

text \<open>\<open>bytes.Index\<close> and \<open>strings.Index\<close>: the index of the first occurrence of \<open>sep\<close>, or
  \<open>-1\<close>.\<close>

fun indexFrom :: "string \<Rightarrow> string \<Rightarrow> nat \<Rightarrow> int" where
  "indexFrom [] sep i = (if sep = [] then int i else - 1)"
| "indexFrom (c # cs) sep i =
     (if take (length sep) (c # cs) = sep then int i else indexFrom cs sep (i + 1))"

definition bytesIndex :: "string \<Rightarrow> string \<Rightarrow> int" where
  "bytesIndex s sep = indexFrom s sep 0"

text \<open>\<open>strings.Cut\<close> (and the file's own \<open>cut\<close>).\<close>

definition cut :: "string \<Rightarrow> string \<Rightarrow> string \<times> string \<times> bool" where
  "cut s sep =
     (let i = bytesIndex s sep in
      if i \<ge> 0 then (take (nat i) s, drop (nat i + length sep) s, True)
      else (s, [], False))"

text \<open>\<open>bytes.Replace(s, old, new, 1)\<close> and \<open>strings.Replace(s, old, new, 1)\<close>: the first
  occurrence is replaced; an empty \<open>old\<close> matches at the start.\<close>

definition replace1 :: "string \<Rightarrow> string \<Rightarrow> string \<Rightarrow> string" where
  "replace1 s old new =
     (let i = bytesIndex s old in
      if i < 0 then s else take (nat i) s @ new @ drop (nat i + length old) s)"

definition contains :: "string \<Rightarrow> string \<Rightarrow> bool" where
  "contains s substr = (bytesIndex s substr \<ge> 0)"

text \<open>\<open>strconv.ParseInt(s, 10, 64)\<close>, and \<open>strconv.Atoi\<close> on a 64-bit platform, which accepts
  the same strings with the same values: an optional sign, then one or more decimal
  digits, the value within \<open>int64\<close>.  \<open>None\<close> is the error result.\<close>

definition decimalValue :: "string \<Rightarrow> int" where
  "decimalValue ds = foldl (\<lambda>n c. n * 10 + (int (of_char c) - int (of_char CHR ''0''))) 0 ds"

definition parseInt64 :: "string \<Rightarrow> int option" where
  "parseInt64 s =
     (if s = [] then None
      else
        (let neg = (hd s = CHR ''-'');
             ds = (if hd s = CHR ''+'' \<or> hd s = CHR ''-'' then tl s else s)
         in if ds = [] \<or> \<not> list_all isDigit ds then None
            else
              (let un = decimalValue ds in
               if \<not> neg \<and> un \<ge> 2 ^ 63 then None
               else if neg \<and> un > 2 ^ 63 then None
               else Some (if neg then - un else un))))"

definition atoi :: "string \<Rightarrow> int option" where
  "atoi s = parseInt64 s"

text \<open>\<open>httpguts.IsTokenRune\<close>: the token characters of RFC 7230, all of them ASCII.  A
  string has no non-token rune exactly if each of its bytes is one of them.\<close>

definition isTokenByte :: "char \<Rightarrow> bool" where
  "isTokenByte c =
     (isDigit c \<or> isLower c \<or> isUpper c \<or>
      c \<in> set ''!#$%&*+-.^_`|~'' \<or> c = CHR 0x27)"

subsection \<open>State\<close>

text \<open>
  Of a parsed \<open>url.URL\<close> the processor uses the path and the value of the query parameter
  \<open>host\<close> (\<open>u.Query().Get("host")\<close>, empty when there is none).
\<close>

record url =
  Path :: string
  QueryHost :: string

text \<open>
  The reader that \<open>adjustBodyReader\<close> builds: the processor itself, an
  \<open>io.LimitReader\<close> over the processor with its remaining count \<open>N\<close>, or an
  \<open>io.MultiReader\<close> of such a limit reader and a chunked reader over the processor.  A
  multi-reader drops a reader from its list when that reader reports \<open>EOF\<close>; its state is
  the limit reader's count while that reader is in the list, and the chunked reader
  while that one is.
\<close>

datatype bodyReader =
    SelfReader
  | LimitReader int
  | MultiReader "int option" "(chunkedReader \<times> bufioReader) option"

record httpProcessor =
  buf :: string
  reader :: source
  bufReadPos :: int
  bufWritePos :: int
  totalBytes :: int
  bufferBytesRead :: int
  bufferUsed :: bool
  parsedHeaders :: bool
  lastError :: "error option"
  request :: bool
  requestMethod :: string
  requestRawURI :: string
  headers :: "(string \<rightharpoonup> string list) option"
  URL :: "url option"
  bodyStartsIndex :: int
  bodyLength :: int
  headerBodyReader :: "bodyReader option"
  responseStatusCode :: int

text \<open>
  What the processor takes from outside this repository: \<open>textproto\<close>'s
  \<open>ReadMIMEHeader\<close> applied to the header block, \<open>url.ParseRequestURI\<close>, and the
  configured \<open>domainURL\<close>.
\<close>

record env =
  readMIMEHeader :: "string \<Rightarrow> error + (string \<rightharpoonup> string list)"
  parseRequestURI :: "string \<Rightarrow> url option"
  domainURL :: string

definition newHttpProcessor :: "source \<Rightarrow> string \<Rightarrow> httpProcessor" where
  "newHttpProcessor rd buffer =
     \<lparr>buf = buffer, reader = rd, bufReadPos = 0, bufWritePos = 0, totalBytes = 0,
      bufferBytesRead = 0, bufferUsed = False, parsedHeaders = False, lastError = None,
      request = False, requestMethod = [], requestRawURI = [], headers = None, URL = None,
      bodyStartsIndex = 0, bodyLength = 0, headerBodyReader = None,
      responseStatusCode = 0\<rparr>"

text \<open>A lookup in \<open>h.headers\<close>; a lookup in a nil map finds nothing.\<close>

definition header :: "httpProcessor \<Rightarrow> string \<Rightarrow> string list option" where
  "header h name = (case headers h of None \<Rightarrow> None | Some m \<Rightarrow> m name)"

definition IsRequestChunked :: "httpProcessor \<Rightarrow> bool" where
  "IsRequestChunked h =
     (case header h ''Transfer-Encoding'' of
        Some (v # vs) \<Rightarrow> v = ''chunked''
      | _ \<Rightarrow> False)"

subsection \<open>Start line\<close>

definition parseRequestLine :: "string \<Rightarrow> string \<times> string \<times> string \<times> bool" where
  "parseRequestLine ln =
     (case cut ln '' '' of
        (method, rest, ok1) \<Rightarrow>
          (case cut rest '' '' of
             (requestURI, proto, ok2) \<Rightarrow>
               if \<not> ok1 \<or> \<not> ok2 then ([], [], [], False)
               else (method, requestURI, proto, True)))"

definition parseResponseLine :: "string \<Rightarrow> string \<times> string \<times> int \<times> bool" where
  "parseResponseLine ln =
     (case cut ln '' '' of
        (protocol, status, ok) \<Rightarrow>
          if \<not> ok then ([], [], 0, False)
          else
            (case cut status '' '' of
               (statusCodeText, _, _) \<Rightarrow>
                 if length statusCodeText \<noteq> 3 then ([], [], 0, False)
                 else
                   (case atoi statusCodeText of
                      None \<Rightarrow> ([], [], 0, False)
                    | Some statusCode \<Rightarrow>
                        if statusCode < 0 then ([], [], 0, False)
                        else (protocol, status, statusCode, True))))"

definition validMethod :: "string \<Rightarrow> bool" where
  "validMethod method = (length method > 0 \<and> list_all isTokenByte method)"

text \<open>The part of \<open>Read\<close> that looks at the start line \<open>ln\<close>; \<open>h.request\<close> is \<open>false\<close> when it
  is entered.\<close>

definition classifyStartLine :: "env \<Rightarrow> string \<Rightarrow> httpProcessor \<Rightarrow> httpProcessor" where
  "classifyStartLine ev ln h =
     (let h1 =
        (case parseRequestLine ln of
           (method, requestURI, _, ok) \<Rightarrow>
             if ok \<and> validMethod method then
               (let h' = h\<lparr>request := True, requestMethod := method,
                           requestRawURI := requestURI\<rparr>
                in case parseRequestURI ev requestURI of
                     Some u \<Rightarrow> h'\<lparr>URL := Some u\<rparr>
                   | None \<Rightarrow> h')
             else h)
      in if \<not> request h1 then
           (case parseResponseLine ln of
              (_, _, statusCode, ok) \<Rightarrow>
                if ok then h1\<lparr>responseStatusCode := statusCode, request := False\<rparr> else h1)
         else h1)"

subsection \<open>Content length and body reader\<close>

definition GetContentLength :: "httpProcessor \<Rightarrow> int \<times> bool" where
  "GetContentLength h =
     (if IsRequestChunked h then (0, True)
      else
        (case header h ''Content-Length'' of
           Some (v # vs) \<Rightarrow>
             (case parseInt64 v of
                None \<Rightarrow> (0, False)
              | Some l \<Rightarrow>
                  if responseStatusCode h = 204 \<or> responseStatusCode h = 304 \<or>
                     (responseStatusCode h \<ge> 100 \<and> responseStatusCode h < 200)
                  then (0, True)
                  else if \<not> request h \<and> requestMethod h = ''CONNECT'' \<and>
                          (responseStatusCode h \<ge> 200 \<and> responseStatusCode h < 300)
                  then (0, True)
                  else if \<not> request h \<and> requestMethod h = ''HEAD'' then (0, True)
                  else (l, True))
         | _ \<Rightarrow>
             if request h then (bufferBytesRead h - bodyStartsIndex h, True)
             else if bufferBytesRead h - bodyStartsIndex h > 0
             then (2 * 2 ^ 62 - 1 - bufferBytesRead h, True)
             else (0, True)))"

text \<open>\<open>adjustBodyReader\<close>.  (The value list of a header that \<open>ReadMIMEHeader\<close> returns is
  never empty; on an empty list \<open>v[0]\<close> would panic, here the connection then counts as
  no upgrade.)\<close>

definition adjustBodyReader :: "httpProcessor \<Rightarrow> httpProcessor" where
  "adjustBodyReader h =
     (let upgradeConn =
            (case header h ''Connection'' of
               Some (v # vs) \<Rightarrow> toLower v = ''upgrade''
             | _ \<Rightarrow> False)
      in if upgradeConn then h\<lparr>headerBodyReader := Some SelfReader\<rparr>
         else if IsRequestChunked h then
           h\<lparr>headerBodyReader :=
               Some (MultiReader (Some (bodyStartsIndex h))
                       (Some (newChunkedReader, newBufioReader defaultBufSize)))\<rparr>
         else
           (let h1 = h\<lparr>bodyLength := fst (GetContentLength h)\<rparr>
            in h1\<lparr>headerBodyReader := Some (LimitReader (bodyStartsIndex h1 + bodyLength h1))\<rparr>))"

subsection \<open>\<open>Read\<close>\<close>

text \<open>
  \<open>Read(p)\<close> with \<open>len(p) = k\<close> returns the bytes stored into \<open>p\<close> (their number is the
  count \<open>n\<close>), the error, and the processor afterwards.  The three definitions are the
  first read into the buffer, the parsing of the headers, and the copy out of the
  buffer; \<open>Inl\<close> is an early return from \<open>Read\<close>.
\<close>

definition fillBuffer :: "httpProcessor \<Rightarrow> (error option \<times> httpProcessor) + httpProcessor" where
  "fillBuffer h =
     (if \<not> parsedHeaders h \<and> bufReadPos h = bufWritePos h then
        (case srcRead (reader h) (length (buf h)) of
           (data, e, src') \<Rightarrow>
             (let h1 = h\<lparr>bufReadPos := 0, bufWritePos := 0, reader := src',
                         buf := overwrite (buf h) 0 data\<rparr>
              in case e of
                   Some err \<Rightarrow> Inl (Some err, h1\<lparr>lastError := Some err\<rparr>)
                 | None \<Rightarrow>
                     (let n = int (length data);
                          h2 = h1\<lparr>totalBytes := totalBytes h1 + n\<rparr>;
                          h3 = h2\<lparr>bufferBytesRead := bufferBytesRead h2 + totalBytes h2\<rparr>
                      in Inr (h3\<lparr>bufWritePos := bufWritePos h3 + n\<rparr>))))
      else Inr h)"

definition parseHeaders :: "env \<Rightarrow> httpProcessor \<Rightarrow> (error option \<times> httpProcessor) + httpProcessor" where
  "parseHeaders ev h =
     (if \<not> parsedHeaders h then
        (let h0 = h\<lparr>request := False\<rparr>;
             firstLineEndPos = bytesIndex (buf h0) crlf
         in if firstLineEndPos < 0 then
              (let e = ErrorString
                 ''could not find the  http status line within the allocated buffer''
               in Inl (Some e, h0\<lparr>lastError := Some e\<rparr>))
            else
              (let delimiterIndex = bytesIndex (buf h0) (crlf @ crlf) in
               if delimiterIndex > 0 then
                 (let h1 = h0\<lparr>bodyStartsIndex := delimiterIndex + 4\<rparr> in
                  case readMIMEHeader ev
                         (slice (buf h1) (nat firstLineEndPos + 2) (nat delimiterIndex + 4)) of
                    Inl err \<Rightarrow> Inl (Some err, h1\<lparr>lastError := Some err\<rparr>)
                  | Inr mimeHeader \<Rightarrow>
                      (let ln = slice (buf h1) 0 (nat firstLineEndPos);
                           h2 = classifyStartLine ev ln h1;
                           h3 = h2\<lparr>headers := Some mimeHeader, parsedHeaders := True\<rparr>
                       in Inr (adjustBodyReader h3)))
               else
                 (let e = ErrorString
                    ''could not Read the headers within the allocated buffer''
                  in Inl (Some e, h0\<lparr>lastError := Some e\<rparr>))))
      else Inr h)"

definition copyFromBuffer :: "httpProcessor \<Rightarrow> nat \<Rightarrow> string \<times> error option \<times> httpProcessor" where
  "copyFromBuffer h k =
     (if k = 0 then ([], None, h)
      else
        (let data = take k (slice (buf h) (nat (bufReadPos h)) (nat (bufWritePos h)));
             h1 = h\<lparr>bufReadPos := bufReadPos h + int (length data)\<rparr>;
             h2 = (if bufReadPos h1 = bufWritePos h1 then h1\<lparr>bufferUsed := True\<rparr> else h1)
         in (data, lastError h2, h2)))"

definition Read :: "env \<Rightarrow> httpProcessor \<Rightarrow> nat \<Rightarrow> string \<times> error option \<times> httpProcessor" where
  "Read ev h k =
     (case lastError h of
        Some e \<Rightarrow> ([], Some e, h)
      | None \<Rightarrow>
          if \<not> bufferUsed h then
            (case fillBuffer h of
               Inl (e, h') \<Rightarrow> ([], e, h')
             | Inr h1 \<Rightarrow>
                 (case parseHeaders ev h1 of
                    Inl (e, h') \<Rightarrow> ([], e, h')
                  | Inr h2 \<Rightarrow> copyFromBuffer h2 k))
          else
            (case srcRead (reader h) k of
               (data, e, src') \<Rightarrow>
                 (let h1 = h\<lparr>reader := src'\<rparr>;
                      h2 = (case e of Some err \<Rightarrow> h1\<lparr>lastError := Some err\<rparr> | None \<Rightarrow> h1);
                      h3 = h2\<lparr>totalBytes := totalBytes h2 + int (length data)\<rparr>
                  in (data, lastError h3, h3))))"

definition ReadHeadersIfNeeded :: "env \<Rightarrow> httpProcessor \<Rightarrow> error option \<times> httpProcessor" where
  "ReadHeadersIfNeeded ev h =
     (if \<not> bufferUsed h then (case Read ev h 0 of (_, e, h') \<Rightarrow> (e, h'))
      else (None, h))"

definition GetHost :: "env \<Rightarrow> httpProcessor \<Rightarrow> (error + string) \<times> httpProcessor" where
  "GetHost ev h =
     (case ReadHeadersIfNeeded ev h of
        (Some e, h') \<Rightarrow> (Inl e, h')
      | (None, h') \<Rightarrow>
          (let fromURL = (case URL h' of Some u \<Rightarrow> QueryHost u | None \<Rightarrow> [])
           in if fromURL \<noteq> [] then (Inr fromURL, h')
              else
                (case header h' ''Host'' of
                   Some [v] \<Rightarrow> (Inr v, h')
                 | _ \<Rightarrow> (Inl (ErrorString ''could not find Host header''), h'))))"

subsection \<open>Replacing a header\<close>

text \<open>
  The search loop of \<open>replaceHeader\<close>, from position \<open>c\<close>.  Indexing the empty rest of the
  buffer and slicing from \<open>-1\<close> panic.  With an empty header name the position never
  moves and the loop does not end; that is the result \<open>SearchDiverges\<close>.
\<close>

datatype searchResult = Found nat | NotFound | SearchPanic | SearchDiverges

function headerSearch :: "string \<Rightarrow> string \<Rightarrow> nat \<Rightarrow> searchResult" where
  "headerSearch b name c =
     (if c \<ge> length b then NotFound
      else
        (let start = bytesIndex (drop c b) name in
         if start < 0 then NotFound
         else
           (let c1 = c + nat start in
            if c1 + length name \<ge> length b then SearchPanic
            else if b ! (c1 + length name) \<noteq> CHR '':'' then
              (if name = [] then SearchDiverges else headerSearch b name (c1 + length name))
            else if c1 = 0 then SearchPanic
            else if b ! (c1 - 1) \<noteq> LF then
              (if name = [] then SearchDiverges else headerSearch b name (c1 + length name))
            else Found c1)))"
  by pat_completeness auto
termination
proof (relation "measure (\<lambda>(b, name, c). length b - c)")
  fix b :: string and name :: string and c :: nat and start :: int and c1 :: nat
  assume "name \<noteq> []" and "c1 = c + nat start" and "\<not> length b \<le> c1 + length name"
  then have "0 < length name" and "c1 + length name < length b" and "c \<le> c1" by auto
  then have "length b - (c1 + length name) < length b - c" by arith
  then show "((b, name, c1 + length name), (b, name, c)) \<in> measure (\<lambda>(b, name, c). length b - c)"
    by simp
  then show "((b, name, c1 + length name), (b, name, c)) \<in> measure (\<lambda>(b, name, c). length b - c)" .
qed simp

declare headerSearch.simps [simp del]

datatype 'a outcome = Returns 'a | Panics | Diverges

definition adjustBufferPositions :: "httpProcessor \<Rightarrow> int \<Rightarrow> httpProcessor" where
  "adjustBufferPositions h offset =
     adjustBodyReader
       (h\<lparr>bufWritePos := bufWritePos h + offset,
          bodyStartsIndex := bodyStartsIndex h + offset,
          bufferBytesRead := bufferBytesRead h + offset\<rparr>)"

definition replaceHeader :: "env \<Rightarrow> string \<Rightarrow> string \<Rightarrow> httpProcessor \<Rightarrow> httpProcessor outcome" where
  "replaceHeader ev headerName headerValue h =
     (let h0 = snd (ReadHeadersIfNeeded ev h) in
      case headers h0 of
        None \<Rightarrow> Returns h0
      | Some m \<Rightarrow>
          (case m headerName of
             Some [oldHeader] \<Rightarrow>
               (let h1 = h0\<lparr>headers := Some (m(headerName \<mapsto> [headerValue]))\<rparr> in
                if \<not> bufferUsed h1 then
                  (case headerSearch (buf h1) headerName 0 of
                     SearchPanic \<Rightarrow> Panics
                   | SearchDiverges \<Rightarrow> Diverges
                   | NotFound \<Rightarrow> Returns h1
                   | Found start \<Rightarrow>
                       (let e = bytesIndex (drop start (buf h1)) [LF] in
                        if e < 0 then Returns h1
                        else
                          (let end = nat e + start;
                               temp = slice (buf h1) start end;
                               tempFixed = replace1 temp oldHeader headerValue;
                               h2 = h1\<lparr>buf := replace1 (buf h1) temp tempFixed\<rparr>;
                               headerDiff = int (length headerValue) - int (length oldHeader)
                           in Returns (adjustBufferPositions h2 headerDiff))))
                else Returns h1)
           | _ \<Rightarrow> Returns h0))"

definition SetHostHeader :: "env \<Rightarrow> string \<Rightarrow> httpProcessor \<Rightarrow> httpProcessor outcome" where
  "SetHostHeader ev hdr h =
     (let h0 = snd (ReadHeadersIfNeeded ev h) in
      case replaceHeader ev ''Host'' hdr h0 of
        Panics \<Rightarrow> Panics
      | Diverges \<Rightarrow> Diverges
      | Returns h1 \<Rightarrow>
          (case header h1 ''Origin'' of
             Some [oldHeader] \<Rightarrow>
               (let i = bytesIndex (domainURL ev) ''/'';
                    domainEndIndex = (if i = - 1 then int (length (domainURL ev)) else i);
                    dom = take (nat domainEndIndex) (domainURL ev)
                in if contains (toLower oldHeader) (toLower dom)
                   then replaceHeader ev ''Origin'' (replace1 oldHeader dom hdr) h1
                   else Returns h1)
           | _ \<Rightarrow> Returns h1))"

subsection \<open>The body reader\<close>

text \<open>
  \<open>GetReader\<close> hands out the reader object that \<open>adjustBodyReader\<close> built last.  The
  caller then reads from that object, which reads from the processor: \<open>bodyRead\<close> is one
  \<open>Read\<close> of the object, on the object's state and the processor's.
\<close>

definition GetReader :: "env \<Rightarrow> httpProcessor \<Rightarrow> bodyReader option \<times> httpProcessor" where
  "GetReader ev h = (case ReadHeadersIfNeeded ev h of (_, h') \<Rightarrow> (headerBodyReader h', h'))"

text \<open>\<open>io.LimitedReader.Read\<close> with remaining count \<open>N\<close>.\<close>

definition limitRead ::
  "'s readFn \<Rightarrow> int \<Rightarrow> 's \<Rightarrow> nat \<Rightarrow> string \<times> error option \<times> int \<times> 's" where
  "limitRead rd N s k =
     (if N \<le> 0 then ([], Some EOF, N, s)
      else
        (case rd s (if int k > N then nat N else k) of
           (data, e, s') \<Rightarrow> (data, e, N - int (length data), s')))"

text \<open>\<open>io.multiReader.Read\<close> for the list that \<open>adjustBodyReader\<close> builds.  A reader that
  reports \<open>EOF\<close> is dropped; its bytes, if any, are returned, without the \<open>EOF\<close> if a reader
  is left; if it had no bytes the loop goes on to the next reader.\<close>

definition multiReadChunked ::
  "env \<Rightarrow> (chunkedReader \<times> bufioReader) option \<Rightarrow> httpProcessor \<Rightarrow> nat
     \<Rightarrow> (string \<times> error option \<times> bodyReader \<times> httpProcessor) option" where
  "multiReadChunked ev ch h k =
     (case ch of
        None \<Rightarrow> Some ([], Some EOF, MultiReader None None, h)
      | Some (cp, b) \<Rightarrow>
          (case chunkedRead (Read ev) (cp, b, h) k of
             None \<Rightarrow> None
           | Some (data, e, (cp', b', h')) \<Rightarrow>
               if e = Some EOF then Some (data, Some EOF, MultiReader None None, h')
               else Some (data, e, MultiReader None (Some (cp', b')), h')))"

definition multiRead ::
  "env \<Rightarrow> int option \<Rightarrow> (chunkedReader \<times> bufioReader) option \<Rightarrow> httpProcessor \<Rightarrow> nat
     \<Rightarrow> (string \<times> error option \<times> bodyReader \<times> httpProcessor) option" where
  "multiRead ev lim ch h k =
     (case lim of
        None \<Rightarrow> multiReadChunked ev ch h k
      | Some N \<Rightarrow>
          (case limitRead (Read ev) N h k of
             (data, e, N', h') \<Rightarrow>
               if e = Some EOF then
                 (if length data > 0
                  then Some (data, (if ch = None then Some EOF else None), MultiReader None ch, h')
                  else multiReadChunked ev ch h' k)
               else Some (data, e, MultiReader (Some N') ch, h')))"

definition bodyRead ::
  "env \<Rightarrow> bodyReader \<times> httpProcessor \<Rightarrow> nat
     \<Rightarrow> (string \<times> error option \<times> bodyReader \<times> httpProcessor) option" where
  "bodyRead ev st k =
     (case st of
        (SelfReader, h) \<Rightarrow>
          (case Read ev h k of (data, e, h') \<Rightarrow> Some (data, e, SelfReader, h'))
      | (LimitReader N, h) \<Rightarrow>
          (case limitRead (Read ev) N h k of
             (data, e, N', h') \<Rightarrow> Some (data, e, LimitReader N', h'))
      | (MultiReader lim ch, h) \<Rightarrow> multiRead ev lim ch h k)"

text \<open>Successive reads from the body reader with destinations of the given sizes: what
  each read returns.\<close>

fun bodyReads ::
  "env \<Rightarrow> bodyReader \<times> httpProcessor \<Rightarrow> nat list \<Rightarrow> (string \<times> error option) list option" where
  "bodyReads ev st [] = Some []"
| "bodyReads ev st (k # ks) =
     (case bodyRead ev st k of
        None \<Rightarrow> None
      | Some (data, e, st') \<Rightarrow>
          (case bodyReads ev st' ks of
             None \<Rightarrow> None
           | Some rs \<Rightarrow> Some ((data, e) # rs)))"

subsection \<open>A configuration and messages used in the examples\<close>

text \<open>
  The examples take \<open>domain.io\<close> as the configured domain, as the repository's tests do.
  \<open>simpleMIME\<close> stands for \<open>ReadMIMEHeader\<close> in them: it reads a header block whose lines
  have the form \<open>Name: value\<close>, with names in canonical form, and ends with an empty line;
  on such a block \<open>ReadMIMEHeader\<close> returns the same map.  \<open>exampleParseURI\<close> stands for
  \<open>url.ParseRequestURI\<close> on the two request URIs of the examples.
\<close>

fun splitCRLF :: "string \<Rightarrow> string \<Rightarrow> string list" where
  "splitCRLF [] cur = [cur]"
| "splitCRLF [c] cur = [cur @ [c]]"
| "splitCRLF (c # d # cs) cur =
     (if c = CR \<and> d = LF then cur # splitCRLF cs [] else splitCRLF (d # cs) (cur @ [c]))"

definition addHeaderLine :: "(string \<rightharpoonup> string list) \<Rightarrow> string \<Rightarrow> (string \<rightharpoonup> string list)" where
  "addHeaderLine m ln =
     (case cut ln '': '' of
        (name, val, found) \<Rightarrow>
          if found
          then m(name \<mapsto> (case m name of None \<Rightarrow> [val] | Some vs \<Rightarrow> vs @ [val]))
          else m)"

definition simpleMIME :: "string \<Rightarrow> error + (string \<rightharpoonup> string list)" where
  "simpleMIME block = Inr (foldl addHeaderLine Map.empty (splitCRLF block []))"

definition exampleParseURI :: "string \<Rightarrow> url option" where
  "exampleParseURI uri =
     (if uri = ''/'' then Some \<lparr>Path = ''/'', QueryHost = []\<rparr>
      else if uri = ''/?host=foo'' then Some \<lparr>Path = ''/'', QueryHost = ''foo''\<rparr>
      else None)"

definition exampleEnv :: env where
  "exampleEnv =
     \<lparr>readMIMEHeader = simpleMIME, parseRequestURI = exampleParseURI,
      domainURL = ''domain.io''\<rparr>"

text \<open>A message: start line, header lines, empty line, body.\<close>

definition message :: "string \<Rightarrow> string list \<Rightarrow> string \<Rightarrow> string" where
  "message startLine headerLines body =
     startLine @ crlf @ concat (map (\<lambda>l. l @ crlf) headerLines) @ crlf @ body"

text \<open>A fresh processor over a connection that delivers the bytes \<open>msg\<close> in one read and
  then closes, with a zeroed buffer of \<open>n\<close> bytes.\<close>

definition exampleProcessor :: "string \<Rightarrow> nat \<Rightarrow> httpProcessor" where
  "exampleProcessor msg n =
     newHttpProcessor \<lparr>segs = [msg], final = EOF\<rparr> (replicate n (CHR 0x00))"

text \<open>The processor after the headers were read, and after a further read of \<open>k\<close> bytes.\<close>

definition afterHeaders :: "httpProcessor \<Rightarrow> httpProcessor" where
  "afterHeaders h = snd (ReadHeadersIfNeeded exampleEnv h)"

definition afterRead :: "httpProcessor \<Rightarrow> nat \<Rightarrow> httpProcessor" where
  "afterRead h k = snd (snd (Read exampleEnv h k))"

section \<open>Properties\<close>

subsection \<open>Characters as numbers\<close>

lemma isUpper_nat: "isUpper c \<longleftrightarrow> 65 \<le> (of_char c :: nat) \<and> (of_char c :: nat) \<le> 90"
  by (simp add: isUpper_def less_eq_char_def)

lemma isLower_nat: "isLower c \<longleftrightarrow> 97 \<le> (of_char c :: nat) \<and> (of_char c :: nat) \<le> 122"
  by (simp add: isLower_def less_eq_char_def)

lemma isDigit_nat: "isDigit c \<longleftrightarrow> 48 \<le> (of_char c :: nat) \<and> (of_char c :: nat) \<le> 57"
  by (simp add: isDigit_def less_eq_char_def)

subsection \<open>What the validation loop computes\<close>

lemma hasDashDash_Cons:
  "hasDashDash (a # xs) = (xs \<noteq> [] \<and> ((a = CHR ''-'' \<and> hd xs = CHR ''-'') \<or> hasDashDash xs))"
  by (cases xs) auto

lemma validLoop_drop:
  "validLoop s i = (list_all isNameChar (drop i s) \<and> \<not> hasDashDash (drop i s))"
proof (induction s i rule: validLoop.induct)
  case (1 s i)
  show ?case
  proof (cases "i < length s")
    case False
    then show ?thesis by (simp add: validLoop.simps)
  next
    case True
    then have d: "drop i s = s ! i # drop (i + 1) s"
      by (simp add: Cons_nth_drop_Suc)
    have h: "Suc i < length s \<Longrightarrow> hd (drop (Suc i) s) = s ! (Suc i)"
      by (simp add: hd_drop_conv_nth)
    show ?thesis
    proof (cases "isNameChar (s ! i)")
      case False
      with True show ?thesis by (subst validLoop.simps) (simp add: d)
    next
      case nc: True
      show ?thesis
      proof (cases "s ! i = CHR ''-'' \<and> i + 1 < length s \<and> s ! (i + 1) = CHR ''-''")
        case True
        with \<open>i < length s\<close> nc show ?thesis
          by (subst validLoop.simps) (simp add: d hasDashDash_Cons h)
      next
        case False
        with \<open>i < length s\<close> nc "1.IH" show ?thesis
          apply (subst validLoop.simps)
          apply (simp add: d hasDashDash_Cons)
          using h by auto
      qed
    qed
  qed
qed

lemma isAlnumLower_iff: "isAlnumLower c \<longleftrightarrow> isNameChar c \<and> c \<noteq> CHR ''-''"
  by (auto simp: isAlnumLower_def isNameChar_def isLower_def isDigit_def)

lemma specNamePattern_iff:
  assumes "2 \<le> length t"
  shows "specNamePattern t \<longleftrightarrow>
     list_all isNameChar t \<and> \<not> hasDashDash t \<and> t ! 0 \<noteq> CHR ''-'' \<and> t ! (length t - 1) \<noteq> CHR ''-''"
proof -
  from assms obtain c rest where t: "t = c # rest" and r: "rest \<noteq> []"
    by (cases t) (auto simp: Suc_le_eq)
  have l: "last rest = t ! (length t - 1)"
    using r by (simp add: t last_conv_nth)
  have a: "list_all isNameChar rest \<longleftrightarrow> list_all isNameChar (butlast rest) \<and> isNameChar (last rest)"
  proof -
    have "list_all isNameChar (butlast rest @ [last rest]) \<longleftrightarrow>
          list_all isNameChar (butlast rest) \<and> isNameChar (last rest)"
      by (simp only: list_all_append) simp
    with r show ?thesis by simp
  qed
  show ?thesis
    unfolding specNamePattern_def using r l a
    by (auto simp: t isAlnumLower_iff hasDashDash_Cons)
qed

text \<open>
  Claim C4, as stated: \<open>tunnelNameValid s\<close> holds if and only if \<open>s\<close> matches
  \<open>^[a-z0-9](?!.*--)[a-z0-9-]*[a-z0-9]$\<close> and is shorter than 50 bytes.  The code lowers the
  name before it looks at it, so the upper-case name \<open>AB\<close> is accepted although the pattern
  rejects it; and it never asks for two characters, so \<open>a\<close> is accepted as well.
\<close>

theorem tunnelNameValid_pattern_counterexample:
  "tunnelNameValid ''AB'' \<and> \<not> (specNamePattern ''AB'' \<and> length ''AB'' < 50) \<and>
   tunnelNameValid ''a'' \<and> \<not> (specNamePattern ''a'' \<and> length ''a'' < 50)"
proof -
  have "tunnelNameValid ''AB''" by code_simp
  moreover have "\<not> specNamePattern ''AB''" by code_simp
  moreover have "tunnelNameValid ''a''" by code_simp
  moreover have "\<not> specNamePattern ''a''" by code_simp
  ultimately show ?thesis by blast
qed

text \<open>
  Claim C4, amended: for every ASCII name \<open>s\<close> of at least two bytes, \<open>tunnelNameValid s\<close>
  holds if and only if \<open>s\<close> is shorter than 50 bytes and the lower-cased \<open>s\<close> matches the
  pattern.  (One-byte names are left out of the statement.)
\<close>

theorem tunnelNameValid_lower_pattern:
  assumes "list_all isASCII s" and "2 \<le> length s"
  shows "tunnelNameValid s \<longleftrightarrow> length s < 50 \<and> specNamePattern (toLower s)"
proof -
  have len: "length (toLower s) = length s" by (simp add: toLower_def)
  from assms(2) have ne: "s \<noteq> []" by auto
  show ?thesis
    using specNamePattern_iff [of "toLower s"] assms(2) ne
    by (auto simp: tunnelNameValid_def Let_def len validLoop_drop)
qed

theorem tunnelNameValid_lower_pattern_witness:
  "list_all isASCII ''My-Sub'' \<and> 2 \<le> length ''My-Sub'' \<and> tunnelNameValid ''My-Sub'' \<and>
   length ''My-Sub'' < 50 \<and> specNamePattern (toLower ''My-Sub'')"
proof -
  have a: "list_all isASCII ''My-Sub''" by code_simp
  have b: "2 \<le> length ''My-Sub''" by simp
  have c: "tunnelNameValid ''My-Sub''" by code_simp
  show ?thesis using tunnelNameValid_lower_pattern [OF a b] a b c by blast
qed

subsection \<open>The tunnel registry\<close>

lemma charMapLookup_alnum: "k < 36 \<Longrightarrow> isAlnumLower (charMapLookup k)"
  by (auto simp: charMapLookup_def charMap_def isAlnumLower_def isLower_nat isDigit_nat)

lemma generated_name_shape:
  assumes "generateRandomTunnelName r = Inr nm"
  shows "length nm = 4 \<and> list_all isAlnumLower nm"
  using assms
  by (cases r) (auto simp: generateRandomTunnelName_def charMapLookup_alnum)

lemma nameLoop_generated:
  "nameLoop L addr True n rs = Some (Inr nm) \<Longrightarrow>
     (\<exists>r \<in> set rs. generateRandomTunnelName r = Inr nm) \<and> L (addr @ nm) = None"
proof (induction rs arbitrary: n)
  case Nil
  then show ?case by simp
next
  case (Cons r rs)
  show ?case
  proof (cases "generateRandomTunnelName r")
    case (Inl e)
    with Cons.prems show ?thesis by simp
  next
    case (Inr name)
    show ?thesis
    proof (cases "L (addr @ name) = None")
      case True
      with Inr Cons.prems show ?thesis by auto
    next
      case False
      with Inr Cons.prems have "nameLoop L addr True name rs = Some (Inr nm)" by simp
      from Cons.IH [OF this] show ?thesis by auto
    qed
  qed
qed

lemma nameLoop_finds:
  assumes "\<forall>q \<in> set pre. \<exists>m. generateRandomTunnelName q = Inr m \<and> L (addr @ m) \<noteq> None"
    and "generateRandomTunnelName r = Inr nm" and "L (addr @ nm) = None"
  shows "nameLoop L addr True n (pre @ r # post) = Some (Inr nm)"
  using assms
proof (induction pre arbitrary: n)
  case Nil
  then show ?case by simp
next
  case (Cons q pre)
  from Cons.prems(1) obtain m where m: "generateRandomTunnelName q = Inr m" "L (addr @ m) \<noteq> None"
    by auto
  have "nameLoop L addr True m (pre @ r # post) = Some (Inr nm)"
    using Cons.IH Cons.prems by simp
  with m show ?case by simp
qed

lemma acquireHTTP_requested:
  assumes "grantable L addr n cid"
  shows "acquireHTTP L addr n cid sid h ct rs =
     Some (Inr (n, L(addr @ n \<mapsto> \<lparr>sessionID = sid, clientID = cid, hostHeader = h, connectionType = ct\<rparr>)))"
  using assms by (auto simp: acquireHTTP_def grantable_def split: option.splits)

lemma acquireHTTP_taken_loop:
  assumes "\<not> grantable L addr n cid"
  shows "acquireHTTP L addr n cid sid h ct rs =
     (case nameLoop L addr True n rs of
        None \<Rightarrow> None
      | Some (Inl e) \<Rightarrow> Some (Inl e)
      | Some (Inr name) \<Rightarrow> Some (Inr (name, L(addr @ name \<mapsto>
            \<lparr>sessionID = sid, clientID = cid, hostHeader = h, connectionType = ct\<rparr>))))"
  using assms by (auto simp: acquireHTTP_def grantable_def split: option.splits)

lemma acquireHTTP_generated:
  assumes "\<not> grantable L addr n cid"
    and "acquireHTTP L addr n cid sid h ct rs = Some (Inr (nm, L'))"
  shows "(\<exists>r \<in> set rs. generateRandomTunnelName r = Inr nm) \<and> length nm = 4 \<and>
         list_all isAlnumLower nm \<and> L (addr @ nm) = None \<and>
         L' = L(addr @ nm \<mapsto> \<lparr>sessionID = sid, clientID = cid, hostHeader = h, connectionType = ct\<rparr>)"
proof -
  from assms have nl: "nameLoop L addr True n rs = Some (Inr nm)"
    and L': "L' = L(addr @ nm \<mapsto> \<lparr>sessionID = sid, clientID = cid, hostHeader = h, connectionType = ct\<rparr>)"
    by (auto simp: acquireHTTP_taken_loop split: option.splits sum.splits)
  from nameLoop_generated [OF nl] generated_name_shape L' show ?thesis by blast
qed

lemma acquireHTTP_finds:
  assumes "\<not> grantable L addr n cid"
    and "\<forall>q \<in> set pre. \<exists>m. generateRandomTunnelName q = Inr m \<and> L (addr @ m) \<noteq> None"
    and "generateRandomTunnelName r = Inr nm" and "L (addr @ nm) = None"
  shows "acquireHTTP L addr n cid sid h ct (pre @ r # post) =
     Some (Inr (nm, L(addr @ nm \<mapsto> \<lparr>sessionID = sid, clientID = cid, hostHeader = h, connectionType = ct\<rparr>)))"
  using assms(1) nameLoop_finds [OF assms(2-4)]
  by (simp add: acquireHTTP_taken_loop)

lemma alnum_not_upper: "isAlnumLower c \<Longrightarrow> \<not> isUpper c"
  by (auto simp: isAlnumLower_def isLower_nat isDigit_nat isUpper_nat)

lemma alnum_toLower: "list_all isAlnumLower t \<Longrightarrow> toLower t = t"
  by (induction t) (auto simp: toLower_def toLowerByte_def alnum_not_upper)

lemma alnum_no_dashdash: "list_all isAlnumLower t \<Longrightarrow> \<not> hasDashDash t"
  by (induction t) (auto simp: hasDashDash_Cons isAlnumLower_iff)

lemma alnum_nameChars: "list_all isAlnumLower t \<Longrightarrow> list_all isNameChar t"
  by (induction t) (auto simp: isAlnumLower_iff)

lemma generated_name_valid:
  assumes "length nm = 4" and "list_all isAlnumLower nm"
  shows "tunnelNameValid nm"
proof -
  from assms(1) obtain a b c d where nm: "nm = [a, b, c, d]"
    by (cases nm; cases "tl nm"; cases "tl (tl nm)"; cases "tl (tl (tl nm))") auto
  from assms(2) have "isAlnumLower a" "isAlnumLower d" by (auto simp: nm)
  then have "a \<noteq> CHR ''-''" "d \<noteq> CHR ''-''" by (auto simp: isAlnumLower_iff)
  then show ?thesis
    using assms alnum_toLower [OF assms(2)] alnum_no_dashdash [OF assms(2)] alnum_nameChars [OF assms(2)]
    by (simp add: tunnelNameValid_def Let_def validLoop_drop nm)
qed

lemma acquireHTTP_generated_differs:
  assumes "\<not> grantable L addr n cid"
    and "acquireHTTP L addr n cid sid h ct rs = Some (Inr (nm, L'))"
  shows "nm \<noteq> n"
proof
  assume "nm = n"
  from acquireHTTP_generated [OF assms] have "length nm = 4" "list_all isAlnumLower nm" "L (addr @ nm) = None"
    by auto
  with generated_name_valid \<open>nm = n\<close> have "grantable L addr n cid"
    by (simp add: grantable_def)
  with assms(1) show False by simp
qed

lemma charMapLookup_table:
  "list_all (\<lambda>k. charMapLookup k = ''0123456789abcdefghijklmnopqrstuvwxyz'' ! k) [0..<36]"
  by code_simp

lemma charMapLookup_base36:
  assumes "k < 36"
  shows "charMapLookup k = ''0123456789abcdefghijklmnopqrstuvwxyz'' ! k"
proof -
  from assms have "k \<in> set [0..<36]" by simp
  with charMapLookup_table show ?thesis unfolding list_all_iff by blast
qed

lemma generateRandomTunnelName_bytes:
  "generateRandomTunnelName (RandBytes b0 b1 b2 b3) = Inr (base36Name [b0, b1, b2, b3])"
  by (simp add: generateRandomTunnelName_def charMapLookup_base36)

lemma generateRandomTunnelName_Inr:
  assumes "generateRandomTunnelName r = Inr nm"
  shows "\<exists>b0 b1 b2 b3. r = RandBytes b0 b1 b2 b3 \<and> nm = base36Name [b0, b1, b2, b3]"
proof (cases r)
  case RandErr
  with assms show ?thesis by (simp add: generateRandomTunnelName_def)
next
  case (RandBytes b0 b1 b2 b3)
  with assms generateRandomTunnelName_bytes [of b0 b1 b2 b3] show ?thesis by auto
qed

lemma acquireHTTP_generated_bytes:
  assumes "\<not> grantable L addr n cid"
    and "acquireHTTP L addr n cid sid h ct rs = Some (Inr (nm, L'))"
  shows "(\<exists>b0 b1 b2 b3. RandBytes b0 b1 b2 b3 \<in> set rs \<and> nm = base36Name [b0, b1, b2, b3]) \<and>
         length nm = 4 \<and> list_all isAlnumLower nm \<and> nm \<noteq> n \<and> L (addr @ nm) = None \<and>
         L' = L(addr @ nm \<mapsto> \<lparr>sessionID = sid, clientID = cid, hostHeader = h, connectionType = ct\<rparr>)"
proof -
  from acquireHTTP_generated [OF assms] obtain r where r: "r \<in> set rs" "generateRandomTunnelName r = Inr nm"
    and rest: "length nm = 4" "list_all isAlnumLower nm" "L (addr @ nm) = None"
      "L' = L(addr @ nm \<mapsto> \<lparr>sessionID = sid, clientID = cid, hostHeader = h, connectionType = ct\<rparr>)"
    by blast
  from generateRandomTunnelName_Inr [OF r(2)] r(1)
  have "\<exists>b0 b1 b2 b3. RandBytes b0 b1 b2 b3 \<in> set rs \<and> nm = base36Name [b0, b1, b2, b3]" by blast
  with rest acquireHTTP_generated_differs [OF assms] show ?thesis by blast
qed

lemma acquireHTTP_finds_bytes:
  assumes "\<not> grantable L addr n cid"
    and "\<forall>q \<in> set pre. \<exists>c0 c1 c2 c3. q = RandBytes c0 c1 c2 c3 \<and>
            L (addr @ base36Name [c0, c1, c2, c3]) \<noteq> None"
    and "L (addr @ base36Name [b0, b1, b2, b3]) = None"
  shows "acquireHTTP L addr n cid sid h ct (pre @ RandBytes b0 b1 b2 b3 # post) =
     Some (Inr (base36Name [b0, b1, b2, b3],
        L(addr @ base36Name [b0, b1, b2, b3] \<mapsto>
          \<lparr>sessionID = sid, clientID = cid, hostHeader = h, connectionType = ct\<rparr>)))"
proof -
  have p: "\<forall>q \<in> set pre. \<exists>m. generateRandomTunnelName q = Inr m \<and> L (addr @ m) \<noteq> None"
  proof
    fix q assume "q \<in> set pre"
    with assms(2) obtain c0 c1 c2 c3 where "q = RandBytes c0 c1 c2 c3"
      "L (addr @ base36Name [c0, c1, c2, c3]) \<noteq> None" by blast
    with generateRandomTunnelName_bytes [of c0 c1 c2 c3]
    show "\<exists>m. generateRandomTunnelName q = Inr m \<and> L (addr @ m) \<noteq> None" by auto
  qed
  from acquireHTTP_finds [OF assms(1) p generateRandomTunnelName_bytes assms(3)]
  show ?thesis .
qed

text \<open>
  Claim C5.  When an HTTP tunnel name is acquired and the requested name is valid and free,
  or held by an entry with the caller's client id, the caller is granted that name and the
  entry is stored under it.  Otherwise every name that is granted comes from one read
  \<open>b0 b1 b2 b3\<close> of the random source and is exactly the four characters
  \<open>''0123456789abcdefghijklmnopqrstuvwxyz'' ! (b mod 36)\<close> for \<open>b = b0, b1, b2, b3\<close>
  (so it is the value of \<open>generateRandomTunnelName\<close> on that read, four characters from
  \<open>[0-9a-z]\<close>); it is free in the table and different from the requested name; and the
  loop does deliver the name of the first read whose name is free, after reads whose names
  are all taken.  So a name acquired by a client is granted to the same client again, while
  a client with another id that asks for it is given a generated name.
\<close>

theorem acquireHTTP_name:
  "(grantable L addr n cid \<longrightarrow>
      acquireHTTP L addr n cid sid h ct rs =
        Some (Inr (n, L(addr @ n \<mapsto>
          \<lparr>sessionID = sid, clientID = cid, hostHeader = h, connectionType = ct\<rparr>)))) \<and>
   (\<not> grantable L addr n cid \<longrightarrow>
      (\<forall>nm L'. acquireHTTP L addr n cid sid h ct rs = Some (Inr (nm, L')) \<longrightarrow>
          (\<exists>b0 b1 b2 b3. RandBytes b0 b1 b2 b3 \<in> set rs \<and>
             nm = map (\<lambda>b. ''0123456789abcdefghijklmnopqrstuvwxyz'' ! (unat b mod 36))
                    [b0, b1, b2, b3]) \<and>
          (\<exists>r \<in> set rs. generateRandomTunnelName r = Inr nm) \<and>
          length nm = 4 \<and> list_all isAlnumLower nm \<and> nm \<noteq> n \<and> L (addr @ nm) = None \<and>
          L' = L(addr @ nm \<mapsto>
            \<lparr>sessionID = sid, clientID = cid, hostHeader = h, connectionType = ct\<rparr>)) \<and>
      (\<forall>pre b0 b1 b2 b3 post.
          rs = pre @ RandBytes b0 b1 b2 b3 # post \<and>
          (\<forall>q \<in> set pre. \<exists>c0 c1 c2 c3. q = RandBytes c0 c1 c2 c3 \<and>
              L (addr @ map (\<lambda>b. ''0123456789abcdefghijklmnopqrstuvwxyz'' ! (unat b mod 36))
                          [c0, c1, c2, c3]) \<noteq> None) \<and>
          L (addr @ map (\<lambda>b. ''0123456789abcdefghijklmnopqrstuvwxyz'' ! (unat b mod 36))
                      [b0, b1, b2, b3]) = None \<longrightarrow>
          acquireHTTP L addr n cid sid h ct rs =
            Some (Inr (map (\<lambda>b. ''0123456789abcdefghijklmnopqrstuvwxyz'' ! (unat b mod 36))
                         [b0, b1, b2, b3],
              L(addr @ map (\<lambda>b. ''0123456789abcdefghijklmnopqrstuvwxyz'' ! (unat b mod 36))
                         [b0, b1, b2, b3] \<mapsto>
              \<lparr>sessionID = sid, clientID = cid, hostHeader = h, connectionType = ct\<rparr>)))) \<and>
      (\<forall>pre r post nm.
          rs = pre @ r # post \<and>
          (\<forall>q \<in> set pre. \<exists>m. generateRandomTunnelName q = Inr m \<and> L (addr @ m) \<noteq> None) \<and>
          generateRandomTunnelName r = Inr nm \<and> L (addr @ nm) = None \<longrightarrow>
          acquireHTTP L addr n cid sid h ct rs =
            Some (Inr (nm, L(addr @ nm \<mapsto>
              \<lparr>sessionID = sid, clientID = cid, hostHeader = h, connectionType = ct\<rparr>))))) \<and>
   (grantable L addr n cid \<and> cid' \<noteq> cid \<longrightarrow>
      (\<exists>L1 L2.
          acquireHTTP L addr n cid sid h ct rs = Some (Inr (n, L1)) \<and>
          acquireHTTP L1 addr n cid sid2 h2 ct2 rs2 = Some (Inr (n, L2)) \<and>
          (\<forall>nm L3. acquireHTTP L1 addr n cid' sid3 h3 ct3 rs3 = Some (Inr (nm, L3)) \<longrightarrow>
              nm \<noteq> n \<and> length nm = 4 \<and> list_all isAlnumLower nm \<and>
              (\<exists>r \<in> set rs3. generateRandomTunnelName r = Inr nm) \<and>
              (\<exists>b0 b1 b2 b3. RandBytes b0 b1 b2 b3 \<in> set rs3 \<and>
                 nm = map (\<lambda>b. ''0123456789abcdefghijklmnopqrstuvwxyz'' ! (unat b mod 36))
                        [b0, b1, b2, b3]))))"
proof -
  let ?ent = "\<lambda>sid h ct. \<lparr>sessionID = sid, clientID = cid, hostHeader = h, connectionType = ct\<rparr>"
  have A: "grantable L addr n cid \<longrightarrow>
      acquireHTTP L addr n cid sid h ct rs = Some (Inr (n, L(addr @ n \<mapsto> ?ent sid h ct)))"
    using acquireHTTP_requested by blast
  have B: "\<not> grantable L addr n cid \<longrightarrow>
      (\<forall>nm L'. acquireHTTP L addr n cid sid h ct rs = Some (Inr (nm, L')) \<longrightarrow>
          (\<exists>b0 b1 b2 b3. RandBytes b0 b1 b2 b3 \<in> set rs \<and> nm = base36Name [b0, b1, b2, b3]) \<and>
          (\<exists>r \<in> set rs. generateRandomTunnelName r = Inr nm) \<and>
          length nm = 4 \<and> list_all isAlnumLower nm \<and> nm \<noteq> n \<and> L (addr @ nm) = None \<and>
          L' = L(addr @ nm \<mapsto> ?ent sid h ct)) \<and>
      (\<forall>pre b0 b1 b2 b3 post.
          rs = pre @ RandBytes b0 b1 b2 b3 # post \<and>
          (\<forall>q \<in> set pre. \<exists>c0 c1 c2 c3. q = RandBytes c0 c1 c2 c3 \<and>
              L (addr @ base36Name [c0, c1, c2, c3]) \<noteq> None) \<and>
          L (addr @ base36Name [b0, b1, b2, b3]) = None \<longrightarrow>
          acquireHTTP L addr n cid sid h ct rs =
            Some (Inr (base36Name [b0, b1, b2, b3],
              L(addr @ base36Name [b0, b1, b2, b3] \<mapsto> ?ent sid h ct)))) \<and>
      (\<forall>pre r post nm.
          rs = pre @ r # post \<and>
          (\<forall>q \<in> set pre. \<exists>m. generateRandomTunnelName q = Inr m \<and> L (addr @ m) \<noteq> None) \<and>
          generateRandomTunnelName r = Inr nm \<and> L (addr @ nm) = None \<longrightarrow>
          acquireHTTP L addr n cid sid h ct rs = Some (Inr (nm, L(addr @ nm \<mapsto> ?ent sid h ct))))"
  proof (intro impI conjI allI)
    fix nm L'
    assume ng: "\<not> grantable L addr n cid"
      and a: "acquireHTTP L addr n cid sid h ct rs = Some (Inr (nm, L'))"
    note gb = acquireHTTP_generated_bytes [OF ng a]
    note g = acquireHTTP_generated [OF ng a]
    show "\<exists>b0 b1 b2 b3. RandBytes b0 b1 b2 b3 \<in> set rs \<and> nm = base36Name [b0, b1, b2, b3]"
      using gb by (rule conjunct1)
    show "\<exists>r \<in> set rs. generateRandomTunnelName r = Inr nm" using g by (rule conjunct1)
    show "length nm = 4" using gb by simp
    show "list_all isAlnumLower nm" using gb by simp
    show "nm \<noteq> n" using gb by simp
    show "L (addr @ nm) = None" using gb by simp
    show "L' = L(addr @ nm \<mapsto> ?ent sid h ct)" using gb by simp
  next
    fix pre b0 b1 b2 b3 post
    assume ng: "\<not> grantable L addr n cid"
      and a: "rs = pre @ RandBytes b0 b1 b2 b3 # post \<and>
          (\<forall>q \<in> set pre. \<exists>c0 c1 c2 c3. q = RandBytes c0 c1 c2 c3 \<and>
              L (addr @ base36Name [c0, c1, c2, c3]) \<noteq> None) \<and>
          L (addr @ base36Name [b0, b1, b2, b3]) = None"
    from a have 1: "rs = pre @ RandBytes b0 b1 b2 b3 # post"
      and 2: "\<forall>q \<in> set pre. \<exists>c0 c1 c2 c3. q = RandBytes c0 c1 c2 c3 \<and>
              L (addr @ base36Name [c0, c1, c2, c3]) \<noteq> None"
      and 3: "L (addr @ base36Name [b0, b1, b2, b3]) = None"
      by (rule conjunct1, rule conjunct2 [THEN conjunct1], rule conjunct2 [THEN conjunct2])
    show "acquireHTTP L addr n cid sid h ct rs =
            Some (Inr (base36Name [b0, b1, b2, b3],
              L(addr @ base36Name [b0, b1, b2, b3] \<mapsto> ?ent sid h ct)))"
      unfolding 1 by (rule acquireHTTP_finds_bytes [OF ng 2 3])
  next
    fix pre r post nm
    assume ng: "\<not> grantable L addr n cid"
      and a: "rs = pre @ r # post \<and>
          (\<forall>q \<in> set pre. \<exists>m. generateRandomTunnelName q = Inr m \<and> L (addr @ m) \<noteq> None) \<and>
          generateRandomTunnelName r = Inr nm \<and> L (addr @ nm) = None"
    from a have 1: "rs = pre @ r # post"
      and 2: "\<forall>q \<in> set pre. \<exists>m. generateRandomTunnelName q = Inr m \<and> L (addr @ m) \<noteq> None"
      and 3: "generateRandomTunnelName r = Inr nm" and 4: "L (addr @ nm) = None"
      by (rule conjunct1, rule conjunct2 [THEN conjunct1],
          rule conjunct2 [THEN conjunct2, THEN conjunct1],
          rule conjunct2 [THEN conjunct2, THEN conjunct2])
    show "acquireHTTP L addr n cid sid h ct rs = Some (Inr (nm, L(addr @ nm \<mapsto> ?ent sid h ct)))"
      unfolding 1 by (rule acquireHTTP_finds [OF ng 2 3 4])
  qed
  have C: "grantable L addr n cid \<and> cid' \<noteq> cid \<longrightarrow>
      (\<exists>L1 L2.
          acquireHTTP L addr n cid sid h ct rs = Some (Inr (n, L1)) \<and>
          acquireHTTP L1 addr n cid sid2 h2 ct2 rs2 = Some (Inr (n, L2)) \<and>
          (\<forall>nm L3. acquireHTTP L1 addr n cid' sid3 h3 ct3 rs3 = Some (Inr (nm, L3)) \<longrightarrow>
              nm \<noteq> n \<and> length nm = 4 \<and> list_all isAlnumLower nm \<and>
              (\<exists>r \<in> set rs3. generateRandomTunnelName r = Inr nm) \<and>
              (\<exists>b0 b1 b2 b3. RandBytes b0 b1 b2 b3 \<in> set rs3 \<and> nm = base36Name [b0, b1, b2, b3])))"
  proof
    assume a: "grantable L addr n cid \<and> cid' \<noteq> cid"
    define L1 where "L1 = L(addr @ n \<mapsto> ?ent sid h ct)"
    define L2 where "L2 = L1(addr @ n \<mapsto> ?ent sid2 h2 ct2)"
    from a have v: "tunnelNameValid n" by (simp add: grantable_def)
    have g1: "grantable L1 addr n cid" using v by (simp add: grantable_def L1_def)
    have g2: "\<not> grantable L1 addr n cid'" using a by (auto simp: grantable_def L1_def)
    have "acquireHTTP L addr n cid sid h ct rs = Some (Inr (n, L1))"
      using a acquireHTTP_requested [of L addr n cid] by (simp add: L1_def)
    moreover have "acquireHTTP L1 addr n cid sid2 h2 ct2 rs2 = Some (Inr (n, L2))"
      using acquireHTTP_requested [OF g1] by (simp add: L2_def)
    moreover have "\<forall>nm L3. acquireHTTP L1 addr n cid' sid3 h3 ct3 rs3 = Some (Inr (nm, L3)) \<longrightarrow>
              nm \<noteq> n \<and> length nm = 4 \<and> list_all isAlnumLower nm \<and>
              (\<exists>r \<in> set rs3. generateRandomTunnelName r = Inr nm) \<and>
              (\<exists>b0 b1 b2 b3. RandBytes b0 b1 b2 b3 \<in> set rs3 \<and> nm = base36Name [b0, b1, b2, b3])"
      using acquireHTTP_generated_bytes [OF g2] acquireHTTP_generated [OF g2] by blast
    ultimately show "\<exists>L1 L2.
          acquireHTTP L addr n cid sid h ct rs = Some (Inr (n, L1)) \<and>
          acquireHTTP L1 addr n cid sid2 h2 ct2 rs2 = Some (Inr (n, L2)) \<and>
          (\<forall>nm L3. acquireHTTP L1 addr n cid' sid3 h3 ct3 rs3 = Some (Inr (nm, L3)) \<longrightarrow>
              nm \<noteq> n \<and> length nm = 4 \<and> list_all isAlnumLower nm \<and>
              (\<exists>r \<in> set rs3. generateRandomTunnelName r = Inr nm) \<and>
              (\<exists>b0 b1 b2 b3. RandBytes b0 b1 b2 b3 \<in> set rs3 \<and> nm = base36Name [b0, b1, b2, b3]))"
      by blast
  qed
  show ?thesis by (rule conjI [OF A conjI [OF B C]])
qed

lemma portScan_first:
  assumes "p0 \<le> p" and "p \<le> 65536"
    and "\<forall>q. p0 \<le> q \<and> q < p \<longrightarrow> fw (joinHostPort b (itoa q)) \<noteq> None"
    and "fw (joinHostPort b (itoa p)) = None"
  shows "portScan fw b p0 a = (p, joinHostPort b (itoa p))"
  using assms
proof (induction "p - p0" arbitrary: p0 a)
  case 0
  then have "p0 = p" by simp
  with 0 show ?case by (subst portScan.simps) simp
next
  case (Suc k)
  then have lt: "p0 < p" by simp
  with Suc.prems have taken: "fw (joinHostPort b (itoa p0)) \<noteq> None" by auto
  have "portScan fw b (p0 + 1) (joinHostPort b (itoa p0)) = (p, joinHostPort b (itoa p))"
    using Suc.hyps(1) [of "p0 + 1"] Suc.hyps(2) Suc.prems lt by auto
  with taken lt Suc.prems(2) show ?case
    by (subst portScan.simps) (simp add: Let_def)
qed

text \<open>
  Claim C6.  When a TCP forward request carries bind port 0, the handler takes the first
  port \<open>p\<close> of \<open>1000..65535\<close> for which \<open>forwards\<close> has no entry under
  \<open>bindAddr:p\<close>, registers a listener there and replies success with the bound port \<open>p\<close>
  (the operating system permitting the listen).
\<close>

theorem tcpForward_first_free:
  assumes "cid \<noteq> []"
    and "1000 \<le> p" and "p \<le> 65535"
    and "forwards (joinHostPort bindAddr (itoa p)) = None"
    and "\<forall>q. 1000 \<le> q \<and> q < p \<longrightarrow> forwards (joinHostPort bindAddr (itoa q)) \<noteq> None"
    and "listenOK (joinHostPort bindAddr (itoa p))"
  shows "tcpForward listenOK forwards bindAddr 0 cid sid =
     TcpReply True (Some p)
       (forwards(joinHostPort bindAddr (itoa p) \<mapsto>
          \<lparr>fwListener = joinHostPort bindAddr (itoa p), fwClientID = cid, fwSessionID = sid,
           fwConType = ''tcp''\<rparr>))"
proof -
  have "portScan forwards bindAddr 1000 (joinHostPort bindAddr (itoa 0)) =
          (p, joinHostPort bindAddr (itoa p))"
    using assms by (intro portScan_first) auto
  with assms(1,4,6) show ?thesis
    by (simp add: tcpForward_def Let_def)
qed


theorem acquireHTTP_name_witness:
  "acquireHTTP Map.empty ''localhost:80'' ''abc'' ''c1'' ''s1'' None ''http'' [] =
     Some (Inr (''abc'', [''localhost:80abc'' \<mapsto>
        \<lparr>sessionID = ''s1'', clientID = ''c1'', hostHeader = None, connectionType = ''http''\<rparr>])) \<and>
   acquireHTTP
      [''localhost:80abc'' \<mapsto>
        \<lparr>sessionID = ''s1'', clientID = ''c1'', hostHeader = None, connectionType = ''http''\<rparr>,
       ''localhost:800z03'' \<mapsto>
        \<lparr>sessionID = ''s0'', clientID = ''c0'', hostHeader = None, connectionType = ''http''\<rparr>]
      ''localhost:80'' ''abc'' ''c2'' ''s2'' None ''http''
      [RandBytes 0 35 36 255, RandBytes 10 11 12 39] =
     Some (Inr (''abc3'',
       [''localhost:80abc'' \<mapsto>
        \<lparr>sessionID = ''s1'', clientID = ''c1'', hostHeader = None, connectionType = ''http''\<rparr>,
        ''localhost:800z03'' \<mapsto>
        \<lparr>sessionID = ''s0'', clientID = ''c0'', hostHeader = None, connectionType = ''http''\<rparr>,
        ''localhost:80abc3'' \<mapsto>
        \<lparr>sessionID = ''s2'', clientID = ''c2'', hostHeader = None, connectionType = ''http''\<rparr>]))"
proof -
  let ?L0 = "[''localhost:80abc'' \<mapsto>
        \<lparr>sessionID = ''s1'', clientID = ''c1'', hostHeader = None, connectionType = ''http''\<rparr>]"
  let ?L1 = "[''localhost:80abc'' \<mapsto>
        \<lparr>sessionID = ''s1'', clientID = ''c1'', hostHeader = None, connectionType = ''http''\<rparr>,
       ''localhost:800z03'' \<mapsto>
        \<lparr>sessionID = ''s0'', clientID = ''c0'', hostHeader = None, connectionType = ''http''\<rparr>]"
  have v: "tunnelNameValid ''abc''" by code_simp
  have g: "grantable Map.empty ''localhost:80'' ''abc'' ''c1''"
    using v by (simp add: grantable_def)
  have ng: "\<not> grantable ?L1 ''localhost:80'' ''abc'' ''c2''"
    by (simp add: grantable_def)
  have n1: "base36Name [0, 35, 36, 255] = ''0z03''" by code_simp
  have n2: "base36Name [10, 11, 12, 39] = ''abc3''" by code_simp
  have free: "?L1 (''localhost:80'' @ base36Name [10, 11, 12, 39]) = None"
    unfolding n2 by simp
  have pre: "\<forall>q \<in> set [RandBytes 0 35 36 255]. \<exists>c0 c1 c2 c3. q = RandBytes c0 c1 c2 c3 \<and>
              ?L1 (''localhost:80'' @ base36Name [c0, c1, c2, c3]) \<noteq> None"
  proof -
    have "?L1 (''localhost:80'' @ base36Name [0, 35, 36, 255]) \<noteq> None"
      unfolding n1 by simp
    then show ?thesis by simp
  qed
  have 1: "acquireHTTP Map.empty ''localhost:80'' ''abc'' ''c1'' ''s1'' None ''http'' [] =
     Some (Inr (''abc'', ?L0))"
    using acquireHTTP_name [of Map.empty "''localhost:80''" "''abc''" "''c1''" "''s1''" None "''http''" "[]",
        THEN conjunct1, THEN mp, OF g]
    by simp
  have rs: "[RandBytes 0 35 36 255, RandBytes 10 11 12 39] =
              [RandBytes 0 35 36 255] @ RandBytes 10 11 12 39 # []" by simp
  note th = acquireHTTP_name [of ?L1 "''localhost:80''" "''abc''" "''c2''" "''s2''" None "''http''"
        "[RandBytes 0 35 36 255, RandBytes 10 11 12 39]"]
  note Y = th [THEN conjunct2, THEN conjunct1, THEN mp, OF ng, THEN conjunct2, THEN conjunct1,
              rule_format, of "[RandBytes 0 35 36 255]" 10 11 12 39 "[]"]
  have 2: "acquireHTTP ?L1 ''localhost:80'' ''abc'' ''c2'' ''s2'' None ''http''
        [RandBytes 0 35 36 255, RandBytes 10 11 12 39] =
     Some (Inr (base36Name [10, 11, 12, 39], ?L1(''localhost:80'' @ base36Name [10, 11, 12, 39] \<mapsto>
        \<lparr>sessionID = ''s2'', clientID = ''c2'', hostHeader = None, connectionType = ''http''\<rparr>)))"
    by (rule Y) (intro conjI rs pre free)
  from 1 2 show ?thesis unfolding n2 by simp
qed

theorem tcpForward_first_free_witness:
  "tcpForward (\<lambda>a. True)
      [''0.0.0.0:1000'' \<mapsto> \<lparr>fwListener = ''0.0.0.0:1000'', fwClientID = ''c0'',
          fwSessionID = ''s0'', fwConType = ''tcp''\<rparr>]
      ''0.0.0.0'' 0 ''c1'' ''s1'' =
   TcpReply True (Some 1001)
      [''0.0.0.0:1000'' \<mapsto> \<lparr>fwListener = ''0.0.0.0:1000'', fwClientID = ''c0'',
          fwSessionID = ''s0'', fwConType = ''tcp''\<rparr>,
       ''0.0.0.0:1001'' \<mapsto> \<lparr>fwListener = ''0.0.0.0:1001'', fwClientID = ''c1'',
          fwSessionID = ''s1'', fwConType = ''tcp''\<rparr>]"
proof -
  let ?fw = "[''0.0.0.0:1000'' \<mapsto> \<lparr>fwListener = ''0.0.0.0:1000'', fwClientID = ''c0'',
          fwSessionID = ''s0'', fwConType = ''tcp''\<rparr>]"
  have a0: "joinHostPort ''0.0.0.0'' (itoa 1000) = ''0.0.0.0:1000''" by code_simp
  have a1: "joinHostPort ''0.0.0.0'' (itoa 1001) = ''0.0.0.0:1001''" by code_simp
  have h1: "''c1'' \<noteq> []" by simp
  have h2: "(1000::nat) \<le> 1001" "(1001::nat) \<le> 65535" by simp_all
  have h3: "?fw (joinHostPort ''0.0.0.0'' (itoa 1001)) = None" by (simp add: a1)
  have h4: "\<forall>q. 1000 \<le> q \<and> q < 1001 \<longrightarrow> ?fw (joinHostPort ''0.0.0.0'' (itoa q)) \<noteq> None"
  proof (intro allI impI)
    fix q :: nat assume "1000 \<le> q \<and> q < 1001"
    then have "q = 1000" by arith
    then show "?fw (joinHostPort ''0.0.0.0'' (itoa q)) \<noteq> None" by (simp add: a0)
  qed
  have h5: "(\<lambda>a. True) (joinHostPort ''0.0.0.0'' (itoa 1001))" by simp
  show ?thesis
    using tcpForward_first_free [of "''c1''" 1001 ?fw "''0.0.0.0''" "\<lambda>a. True" "''s1''", OF h1 h2 h3 h4 h5]
    by (simp add: a1)
qed

subsection \<open>The HTTP processor after its headers were read\<close>

lemma adjustBodyReader_fields [simp]:
  "buf (adjustBodyReader h) = buf h"
  "reader (adjustBodyReader h) = reader h"
  "bufReadPos (adjustBodyReader h) = bufReadPos h"
  "bufWritePos (adjustBodyReader h) = bufWritePos h"
  "totalBytes (adjustBodyReader h) = totalBytes h"
  "bufferBytesRead (adjustBodyReader h) = bufferBytesRead h"
  "bufferUsed (adjustBodyReader h) = bufferUsed h"
  "parsedHeaders (adjustBodyReader h) = parsedHeaders h"
  "lastError (adjustBodyReader h) = lastError h"
  "request (adjustBodyReader h) = request h"
  "requestMethod (adjustBodyReader h) = requestMethod h"
  "requestRawURI (adjustBodyReader h) = requestRawURI h"
  "headers (adjustBodyReader h) = headers h"
  "URL (adjustBodyReader h) = URL h"
  "bodyStartsIndex (adjustBodyReader h) = bodyStartsIndex h"
  "responseStatusCode (adjustBodyReader h) = responseStatusCode h"
  by (simp_all add: adjustBodyReader_def Let_def)

lemma classifyStartLine_fields [simp]:
  "buf (classifyStartLine ev ln h) = buf h"
  "reader (classifyStartLine ev ln h) = reader h"
  "bufReadPos (classifyStartLine ev ln h) = bufReadPos h"
  "bufWritePos (classifyStartLine ev ln h) = bufWritePos h"
  "totalBytes (classifyStartLine ev ln h) = totalBytes h"
  "bufferBytesRead (classifyStartLine ev ln h) = bufferBytesRead h"
  "bufferUsed (classifyStartLine ev ln h) = bufferUsed h"
  "parsedHeaders (classifyStartLine ev ln h) = parsedHeaders h"
  "lastError (classifyStartLine ev ln h) = lastError h"
  "headers (classifyStartLine ev ln h) = headers h"
  "bodyStartsIndex (classifyStartLine ev ln h) = bodyStartsIndex h"
  "bodyLength (classifyStartLine ev ln h) = bodyLength h"
  "headerBodyReader (classifyStartLine ev ln h) = headerBodyReader h"
  by (simp_all add: classifyStartLine_def Let_def split: prod.splits option.splits)











text \<open>
  Claim C3, as stated: for a message that is not chunked and whose \<open>Content-Length\<close> does
  not parse, \<open>GetContentLength\<close> returns \<open>(0, true)\<close>.  It does not: for the request
  \<open>POST / HTTP/1.1\<close> with \<open>Content-Length: abc\<close> the result is another one.
\<close>

theorem GetContentLength_unparseable_counterexample:
  "\<not> IsRequestChunked (afterHeaders (exampleProcessor
        (message ''POST / HTTP/1.1'' [''Content-Length: abc''] []) 64)) \<and>
   header (afterHeaders (exampleProcessor
        (message ''POST / HTTP/1.1'' [''Content-Length: abc''] []) 64)) ''Content-Length'' = Some [''abc''] \<and>
   parseInt64 ''abc'' = None \<and>
   GetContentLength (afterHeaders (exampleProcessor
        (message ''POST / HTTP/1.1'' [''Content-Length: abc''] []) 64)) \<noteq> (0, True)"
  by code_simp

text \<open>
  Claim C3, amended: for a message that is not chunked and whose \<open>Content-Length\<close> is
  present but does not parse as a decimal integer, \<open>GetContentLength\<close> returns
  \<open>(0, false)\<close>.
\<close>

theorem GetContentLength_unparseable:
  assumes "\<not> IsRequestChunked h" and "header h ''Content-Length'' = Some (v # vs)"
    and "parseInt64 v = None"
  shows "GetContentLength h = (0, False)"
  using assms by (simp add: GetContentLength_def)

theorem GetContentLength_unparseable_witness:
  "GetContentLength (afterHeaders (exampleProcessor
        (message ''POST / HTTP/1.1'' [''Content-Length: abc''] []) 64)) = (0, False)"
proof -
  let ?h = "afterHeaders (exampleProcessor
        (message ''POST / HTTP/1.1'' [''Content-Length: abc''] []) 64)"
  have c: "\<not> IsRequestChunked ?h" by code_simp
  have a: "header ?h ''Content-Length'' = Some (''abc'' # [])" by code_simp
  have n: "parseInt64 ''abc'' = None" by code_simp
  from GetContentLength_unparseable [OF c a n] show ?thesis .
qed

text \<open>
  Claim C9 says that the status code of a response line is recorded only when the status
  token is exactly three digits.  For the start line \<open>HTTP/1.1 +20 OK\<close> the first word is
  not a token, the message is classified as a response, and the status token \<open>+20\<close>, which
  is not three digits, is accepted: status code 20 is recorded.
\<close>

theorem status_plus_sign_recorded:
  "\<not> validMethod ''HTTP/1.1'' \<and> \<not> list_all isDigit ''+20'' \<and>
   parseResponseLine ''HTTP/1.1 +20 OK'' = (''HTTP/1.1'', ''+20 OK'', 20, True) \<and>
   \<not> request (afterHeaders (exampleProcessor (message ''HTTP/1.1 +20 OK'' [] []) 64)) \<and>
   responseStatusCode (afterHeaders (exampleProcessor (message ''HTTP/1.1 +20 OK'' [] []) 64)) = 20"
  by code_simp

subsection \<open>Replacing the \<open>Host\<close> header; the chunked reader on a split payload\<close>

lemma ReadHeadersIfNeeded_drained: "bufferUsed h \<Longrightarrow> ReadHeadersIfNeeded ev h = (None, h)"
  by (simp add: ReadHeadersIfNeeded_def)

lemma headers_update_same: "h\<lparr>headers := headers h\<rparr> = h"
  by simp

lemma replaceHeader_drained:
  assumes "bufferUsed h"
  shows "replaceHeader ev n v h =
     Returns (h\<lparr>headers :=
        (case headers h of
           None \<Rightarrow> None
         | Some m \<Rightarrow> (case m n of Some [old] \<Rightarrow> Some (m(n \<mapsto> [v])) | _ \<Rightarrow> Some m))\<rparr>)"
  using assms
  by (auto simp: replaceHeader_def ReadHeadersIfNeeded_drained Let_def
           split: option.splits list.splits)

lemma SetHostHeader_drained:
  assumes "bufferUsed h"
  shows "\<exists>M. SetHostHeader ev v h = Returns (h\<lparr>headers := M\<rparr>) \<and>
             (\<forall>old. header h ''Host'' = Some [old] \<longrightarrow> header (h\<lparr>headers := M\<rparr>) ''Host'' = Some [v])"
proof -
  let ?M1 = "(case headers h of
           None \<Rightarrow> None
         | Some m \<Rightarrow> (case m ''Host'' of Some [old] \<Rightarrow> Some (m(''Host'' \<mapsto> [v])) | _ \<Rightarrow> Some m))"
  let ?h1 = "h\<lparr>headers := ?M1\<rparr>"
  have r1: "replaceHeader ev ''Host'' v h = Returns ?h1"
    by (rule replaceHeader_drained [OF assms])
  have u1: "bufferUsed ?h1" using assms by simp
  have host1: "\<And>old. header h ''Host'' = Some [old] \<Longrightarrow> header ?h1 ''Host'' = Some [v]"
    by (auto simp: header_def split: option.splits)
  show ?thesis
  proof (cases "\<exists>ov. header ?h1 ''Origin'' = Some [ov] \<and>
      contains (toLower ov) (toLower (take (nat (if bytesIndex (domainURL ev) ''/'' = - 1
           then int (length (domainURL ev)) else bytesIndex (domainURL ev) ''/'')) (domainURL ev)))")
    case False
    then have "SetHostHeader ev v h = Returns ?h1"
      using r1 assms
      by (auto simp: SetHostHeader_def ReadHeadersIfNeeded_drained Let_def
               split: option.splits list.splits)
    with host1 show ?thesis by blast
  next
    case True
    then obtain ov where o: "header ?h1 ''Origin'' = Some [ov]"
      and c: "contains (toLower ov) (toLower (take (nat (if bytesIndex (domainURL ev) ''/'' = - 1
           then int (length (domainURL ev)) else bytesIndex (domainURL ev) ''/'')) (domainURL ev)))"
      by blast
    let ?nv = "replace1 ov (take (nat (if bytesIndex (domainURL ev) ''/'' = - 1
           then int (length (domainURL ev)) else bytesIndex (domainURL ev) ''/'')) (domainURL ev)) v"
    let ?M2 = "(case headers ?h1 of
           None \<Rightarrow> None
         | Some m \<Rightarrow> (case m ''Origin'' of Some [old] \<Rightarrow> Some (m(''Origin'' \<mapsto> [?nv])) | _ \<Rightarrow> Some m))"
    have r2: "replaceHeader ev ''Origin'' ?nv ?h1 = Returns (?h1\<lparr>headers := ?M2\<rparr>)"
      by (rule replaceHeader_drained [OF u1])
    have s: "SetHostHeader ev v h = Returns (h\<lparr>headers := ?M2\<rparr>)"
      using r1 r2 o c assms
      by (simp add: SetHostHeader_def ReadHeadersIfNeeded_drained Let_def)
    have "\<And>old. header h ''Host'' = Some [old] \<Longrightarrow> header (h\<lparr>headers := ?M2\<rparr>) ''Host'' = Some [v]"
      using host1 by (auto simp: header_def split: option.splits list.splits)
    with s show ?thesis by blast
  qed
qed

lemma GetHost_drained:
  assumes "bufferUsed h" and "header h ''Host'' = Some [v]"
    and "case URL h of None \<Rightarrow> True | Some u \<Rightarrow> QueryHost u = []"
  shows "GetHost ev h = (Inr v, h)"
  using assms
  by (auto simp: GetHost_def ReadHeadersIfNeeded_drained Let_def split: option.splits)

text \<open>
  Claim C10, amended: when the buffer has been drained and the message has a single
  \<open>Host\<close> header, \<open>SetHostHeader\<close> (and \<open>replaceHeader\<close> for \<open>Host\<close>) still replaces the value
  in the parsed headers and leaves the buffer as it is; a following \<open>GetHost\<close> returns the
  new value, provided the parsed URL carries no non-empty \<open>host\<close> query parameter.
\<close>

theorem SetHostHeader_drained_GetHost:
  assumes "bufferUsed h" and "header h ''Host'' = Some [old]"
    and "case URL h of None \<Rightarrow> True | Some u \<Rightarrow> QueryHost u = []"
  shows "\<exists>h' h''. SetHostHeader ev v h = Returns h' \<and> fst (GetHost ev h') = Inr v \<and>
                 header h' ''Host'' = Some [v] \<and> buf h' = buf h \<and>
                 replaceHeader ev ''Host'' v h = Returns h'' \<and> fst (GetHost ev h'') = Inr v \<and>
                 header h'' ''Host'' = Some [v] \<and> buf h'' = buf h"
proof -
  from SetHostHeader_drained [OF assms(1), of ev v] assms(2) obtain M where
    s: "SetHostHeader ev v h = Returns (h\<lparr>headers := M\<rparr>)"
    and hM: "header (h\<lparr>headers := M\<rparr>) ''Host'' = Some [v]"
    by blast
  have g: "fst (GetHost ev (h\<lparr>headers := M\<rparr>)) = Inr v"
    using GetHost_drained [of "h\<lparr>headers := M\<rparr>" v ev] assms(1,3) hM by simp
  let ?M1 = "(case headers h of
           None \<Rightarrow> None
         | Some m \<Rightarrow> (case m ''Host'' of Some [old] \<Rightarrow> Some (m(''Host'' \<mapsto> [v])) | _ \<Rightarrow> Some m))"
  have r: "replaceHeader ev ''Host'' v h = Returns (h\<lparr>headers := ?M1\<rparr>)"
    by (rule replaceHeader_drained [OF assms(1)])
  have h1: "header (h\<lparr>headers := ?M1\<rparr>) ''Host'' = Some [v]"
    using assms(2) by (auto simp: header_def split: option.splits)
  have g1: "fst (GetHost ev (h\<lparr>headers := ?M1\<rparr>)) = Inr v"
    using GetHost_drained [of "h\<lparr>headers := ?M1\<rparr>" v ev] assms(1,3) h1 by simp
  from s hM g r h1 g1 show ?thesis by simp
qed

text \<open>
  Claim C10, as stated: after \<open>SetHostHeader\<close> on a drained buffer, \<open>GetHost\<close> returns the new
  value.  For the request \<open>GET /?host=foo HTTP/1.1\<close> with \<open>Host: domain.io\<close>, read to the end
  of the buffer, the parsed \<open>Host\<close> header becomes \<open>a.b.com\<close>, but \<open>GetHost\<close> returns \<open>foo\<close>:
  it prefers the \<open>host\<close> query parameter of the URL.
\<close>

theorem SetHostHeader_drained_GetHost_counterexample:
  "bufferUsed (afterRead (exampleProcessor
       (message ''GET /?host=foo HTTP/1.1'' [''Host: domain.io''] []) 100) 100) \<and>
   header (afterRead (exampleProcessor
       (message ''GET /?host=foo HTTP/1.1'' [''Host: domain.io''] []) 100) 100) ''Host'' = Some [''domain.io''] \<and>
   (case SetHostHeader exampleEnv ''a.b.com'' (afterRead (exampleProcessor
       (message ''GET /?host=foo HTTP/1.1'' [''Host: domain.io''] []) 100) 100) of
      Returns h' \<Rightarrow> header h' ''Host'' = Some [''a.b.com''] \<and> fst (GetHost exampleEnv h') = Inr ''foo''
    | _ \<Rightarrow> False) \<and>
   ''foo'' \<noteq> ''a.b.com''"
  by code_simp

theorem SetHostHeader_drained_GetHost_witness:
  "case SetHostHeader exampleEnv ''a.b.com'' (afterRead (exampleProcessor
       (message ''GET / HTTP/1.1'' [''Host: domain.io''] []) 100) 100) of
      Returns h' \<Rightarrow> fst (GetHost exampleEnv h') = Inr ''a.b.com''
    | _ \<Rightarrow> False"
proof -
  let ?h = "afterRead (exampleProcessor (message ''GET / HTTP/1.1'' [''Host: domain.io''] []) 100) 100"
  have a: "bufferUsed ?h" by code_simp
  have b: "header ?h ''Host'' = Some [''domain.io'']" by code_simp
  have c: "case URL ?h of None \<Rightarrow> True | Some u \<Rightarrow> QueryHost u = []" by code_simp
  from SetHostHeader_drained_GetHost [OF a b c, of exampleEnv "''a.b.com''"]
  show ?thesis by auto
qed

text \<open>
  Claim C7 says that \<open>SetHostHeader\<close> rewrites the domain portion of the \<open>Origin\<close> header
  whenever its value contains the configured domain under case-insensitive comparison.
  With the domain \<open>domain.io\<close> and the header \<open>Origin: https://DOMAIN.IO:123\<close> the
  comparison succeeds, the \<open>Host\<close> header is rewritten in the parsed headers and in the
  buffer, and the \<open>Origin\<close> header keeps its value in both: the replacement that follows
  the comparison is case-sensitive.
\<close>

theorem SetHostHeader_origin_case_kept:
  "contains (toLower ''https://DOMAIN.IO:123'') (toLower ''domain.io'') \<and>
   (case SetHostHeader exampleEnv ''a.b.com''
           (exampleProcessor
              (message ''GET / HTTP/1.1''
                 [''Host: domain.io'', ''Origin: https://DOMAIN.IO:123''] []) 100) of
      Returns h \<Rightarrow>
        header h ''Host'' = Some [''a.b.com''] \<and>
        header h ''Origin'' = Some [''https://DOMAIN.IO:123''] \<and>
        \<not> bufferUsed h \<and>
        take (nat (bufWritePos h)) (buf h) =
          message ''GET / HTTP/1.1''
            [''Host: a.b.com'', ''Origin: https://DOMAIN.IO:123''] []
    | _ \<Rightarrow> False)"
  by code_simp

text \<open>
  Claim C1 says that reading the chunked reader to the end yields every byte of a valid
  chunked payload \<open>P\<close> and then \<open>EOF\<close>.  Take \<open>P\<close> to be the chunk \<open>5 CRLF 0 CRLF a b CRLF\<close>
  (five bytes of data, the first three of them \<open>0 CRLF\<close>) followed by the terminating
  \<open>0 CRLF CRLF\<close>, delivered by the connection in two reads: the chunk-size line first,
  the rest after it.  Read with a destination of 32 bytes, the reader yields the first
  chunk and then \<open>EOF\<close>; the terminating chunk is never passed on.  After the chunk's
  footer the code compares \<open>cp.line\<close> with \<open>0 CRLF\<close>, and \<open>cp.line\<close> is a view of the buffered
  reader's buffer, which the second read has overwritten with the chunk's data.
\<close>

theorem chunked_reader_early_EOF:
  "readToEnd srcRead
     (NewChunkedReader
        \<lparr>segs = [[CHR ''5'', CR, LF],
                 [CHR ''0'', CR, LF] @ ''ab'' @ [CR, LF] @ [CHR ''0'', CR, LF, CR, LF]],
         final = EOF\<rparr>) 32 [] =
   Some ([CHR ''5'', CR, LF] @ [CHR ''0'', CR, LF] @ ''ab'' @ [CR, LF], EOF)"
  by code_simp

text \<open>The same payload delivered in one read is passed on whole.\<close>

lemma chunked_reader_one_segment:
  "readToEnd srcRead
     (NewChunkedReader
        \<lparr>segs = [[CHR ''5'', CR, LF] @
                 [CHR ''0'', CR, LF] @ ''ab'' @ [CR, LF] @ [CHR ''0'', CR, LF, CR, LF]],
         final = EOF\<rparr>) 32 [] =
   Some ([CHR ''5'', CR, LF] @ [CHR ''0'', CR, LF] @ ''ab'' @ [CR, LF] @ [CHR ''0'', CR, LF, CR, LF], EOF)"
  by code_simp

subsection \<open>Readers that do not depend on the parsed headers\<close>

text \<open>
  A read function that commutes with a change of the state it does not look at keeps
  commuting under \<open>bufio.Reader\<close>, the chunked reader and the body readers.
\<close>

lemma commutesD:
  assumes "commutes rd f P" and "P s" and "rd s k = (d, e, s')"
  shows "rd (f s) k = (d, e, f s')" and "P s'"
  using assms unfolding commutes_def by (auto split: prod.splits)

lemma fillLoop_commutes:
  assumes c: "commutes rd f P"
  shows "P s \<Longrightarrow> fillLoop rd i b s = (b', s') \<Longrightarrow> fillLoop rd i b (f s) = (b', f s') \<and> P s'"
proof (induction i arbitrary: b s)
  case 0
  then show ?case by auto
next
  case (Suc i)
  obtain d e s1 where r: "rd s (rdSize b - rdW b) = (d, e, s1)" by (cases "rd s (rdSize b - rdW b)") auto
  note cd = commutesD [OF c Suc.prems(1) r]
  show ?case
  proof (cases "e = None \<and> length d = 0")
    case True
    with Suc.prems r cd Suc.IH [OF cd(2)] show ?thesis by (auto simp: Let_def)
  next
    case False
    with Suc.prems r cd show ?thesis by (auto simp: Let_def split: option.splits)
  qed
qed

lemma fill_commutes:
  assumes c: "commutes rd f P"
  shows "P s \<Longrightarrow> fill rd b s = (b', s') \<Longrightarrow> fill rd b (f s) = (b', f s') \<and> P s'"
  unfolding fill_def Let_def using fillLoop_commutes [OF c] by blast

lemma readSliceLoop_commutes_aux:
  assumes "readSliceLoop rd b s s0 = Some y"
  shows "commutes rd f P \<longrightarrow> P s \<longrightarrow>
       (case y of (v, e, b', s') \<Rightarrow> readSliceLoop rd b (f s) s0 = Some (v, e, b', f s') \<and> P s')"
proof (rule readSliceLoop.raw_induct [where P = "\<lambda>rd b s s0 y. commutes rd f P \<longrightarrow> P s \<longrightarrow>
       (case y of (v, e, b', s') \<Rightarrow> readSliceLoop rd b (f s) s0 = Some (v, e, b', f s') \<and> P s')",
       OF _ assms])
  fix rsl :: "'a readFn \<Rightarrow> bufioReader \<Rightarrow> 'a \<Rightarrow> nat \<Rightarrow> (view \<times> error option \<times> bufioReader \<times> 'a) option"
  fix rd b s s0 y
  assume IH: "\<And>rd' b' s' s0' y'. rsl rd' b' s' s0' = Some y' \<Longrightarrow>
      commutes rd' f P \<longrightarrow> P s' \<longrightarrow>
       (case y' of (v, e, b'', s'') \<Rightarrow> readSliceLoop rd' b' (f s') s0' = Some (v, e, b'', f s'') \<and> P s'')"
  assume body: "(case indexByte (sliceOf (rdBuf b) (rdR b + s0) (rdW b)) LF of
      None \<Rightarrow>
        if rdErr b \<noteq> None
        then case readErr (b\<lparr>rdR := rdW b\<rparr>) of
             (e, b') \<Rightarrow> Some ((rdR b, rdW b - rdR b), e, b', s)
        else if rdSize b \<le> Buffered b
             then Some ((0, rdSize b), Some ErrBufferFull, b\<lparr>rdR := rdW b\<rparr>, s)
             else case fill rd b s of
                  (b', s') \<Rightarrow> rsl rd b' s' (rdW b - rdR b)
      | Some i \<Rightarrow>
          Some ((rdR b, i + s0 + 1), None, b\<lparr>rdR := rdR b + (i + s0) + 1\<rparr>, s)) =
     Some y"
  show "commutes rd f P \<longrightarrow> P s \<longrightarrow>
       (case y of (v, e, b', s') \<Rightarrow> readSliceLoop rd b (f s) s0 = Some (v, e, b', f s') \<and> P s')"
  proof (intro impI)
    assume c: "commutes rd f P" and Ps: "P s"
    show "case y of (v, e, b', s') \<Rightarrow> readSliceLoop rd b (f s) s0 = Some (v, e, b', f s') \<and> P s'"
    proof (cases "indexByte (sliceOf (rdBuf b) (rdR b + s0) (rdW b)) LF")
      case (Some i)
      with body Ps show ?thesis by (subst readSliceLoop.simps) auto
    next
      case None
      show ?thesis
      proof (cases "rdErr b \<noteq> None \<or> rdSize b \<le> Buffered b")
        case True
        with None body Ps show ?thesis
          by (subst readSliceLoop.simps) (auto split: prod.splits if_splits)
      next
        case False
        obtain b1 s1 where fl: "fill rd b s = (b1, s1)" by (cases "fill rd b s") auto
        from fill_commutes [OF c Ps fl] have fl': "fill rd b (f s) = (b1, f s1)" and P1: "P s1" by auto
        from body None False fl have "rsl rd b1 s1 (rdW b - rdR b) = Some y" by auto
        from IH [OF this] c P1
        have "case y of (v, e, b', s') \<Rightarrow>
                readSliceLoop rd b1 (f s1) (rdW b - rdR b) = Some (v, e, b', f s') \<and> P s'"
          by blast
        with None False fl' show ?thesis
          by (subst readSliceLoop.simps) (auto split: prod.splits)
      qed
    qed
  qed
qed

lemma ReadSlice_commutes:
  assumes "commutes rd f P" and "P s" and "ReadSlice rd b s = Some (v, e, b', s')"
  shows "ReadSlice rd b (f s) = Some (v, e, b', f s') \<and> P s'"
  using readSliceLoop_commutes_aux [of rd b s 0 "(v, e, b', s')" f P] assms
  by (simp add: ReadSlice_def)

lemma bufioRead_commutes:
  assumes c: "commutes rd f P" and Ps: "P s" and r: "bufioRead rd b s k = (d, e, b', s')"
  shows "bufioRead rd b (f s) k = (d, e, b', f s') \<and> P s'"
proof -
  obtain d1 e1 s1 where r1: "rd s k = (d1, e1, s1)" by (cases "rd s k") auto
  obtain d2 e2 s2 where r2: "rd s (rdSize b) = (d2, e2, s2)" by (cases "rd s (rdSize b)") auto
  note c1 = commutesD [OF c Ps r1]
  note c2 = commutesD [OF c Ps r2]
  from r Ps r1 r2 c1 c2 show ?thesis
    by (auto simp: bufioRead_def copyOut_def Let_def split: if_splits prod.splits)
qed

lemma readFullLoop_commutes_aux:
  assumes "readFullLoop rd b s dst n e = Some y"
  shows "commutes rd f P \<longrightarrow> P s \<longrightarrow>
       (case y of (dst', n', e', b', s') \<Rightarrow>
          readFullLoop rd b (f s) dst n e = Some (dst', n', e', b', f s') \<and> P s')"
proof (rule readFullLoop.raw_induct [where P = "\<lambda>rd b s dst n e y. commutes rd f P \<longrightarrow> P s \<longrightarrow>
       (case y of (dst', n', e', b', s') \<Rightarrow>
          readFullLoop rd b (f s) dst n e = Some (dst', n', e', b', f s') \<and> P s')", OF _ assms])
  fix rfl :: "'a readFn \<Rightarrow> bufioReader \<Rightarrow> 'a \<Rightarrow> string \<Rightarrow> nat \<Rightarrow> error option
     \<Rightarrow> (string \<times> nat \<times> error option \<times> bufioReader \<times> 'a) option"
  fix rd b s dst n e y
  assume IH: "\<And>rd' b' s' dst' n' e' y'. rfl rd' b' s' dst' n' e' = Some y' \<Longrightarrow>
      commutes rd' f P \<longrightarrow> P s' \<longrightarrow>
       (case y' of (dst'', n'', e'', b'', s'') \<Rightarrow>
          readFullLoop rd' b' (f s') dst' n' e' = Some (dst'', n'', e'', b'', f s'') \<and> P s'')"
  assume body: "(if n < 2 \<and> e = None
      then case bufioRead rd b s (2 - n) of
           (data, e', b', s') \<Rightarrow>
             rfl rd b' s' (overwrite dst n data) (n + length data) e'
      else if 2 \<le> n then Some (dst, n, None, b, s)
           else if 0 < n \<and> e = Some EOF
                then Some (dst, n, Some ErrUnexpectedEOF, b, s)
                else Some (dst, n, e, b, s)) =
     Some y"
  show "commutes rd f P \<longrightarrow> P s \<longrightarrow>
       (case y of (dst', n', e', b', s') \<Rightarrow>
          readFullLoop rd b (f s) dst n e = Some (dst', n', e', b', f s') \<and> P s')"
  proof (intro impI)
    assume c: "commutes rd f P" and Ps: "P s"
    show "case y of (dst', n', e', b', s') \<Rightarrow>
          readFullLoop rd b (f s) dst n e = Some (dst', n', e', b', f s') \<and> P s'"
    proof (cases "n < 2 \<and> e = None")
      case False
      with body Ps show ?thesis
        by (subst readFullLoop.simps) (auto split: if_splits)
    next
      case True
      obtain d1 e1 b1 s1 where br: "bufioRead rd b s (2 - n) = (d1, e1, b1, s1)"
        by (cases "bufioRead rd b s (2 - n)") auto
      from bufioRead_commutes [OF c Ps br]
      have br': "bufioRead rd b (f s) (2 - n) = (d1, e1, b1, f s1)" and P1: "P s1" by auto
      from body True br have "rfl rd b1 s1 (overwrite dst n d1) (n + length d1) e1 = Some y" by auto
      from IH [OF this] c P1
      have "case y of (dst', n', e', b', s') \<Rightarrow>
          readFullLoop rd b1 (f s1) (overwrite dst n d1) (n + length d1) e1 = Some (dst', n', e', b', f s') \<and> P s'"
        by blast
      with True br' show ?thesis
        by (subst readFullLoop.simps) (auto split: prod.splits)
    qed
  qed
qed

lemma readFullLoop_commutes:
  assumes "commutes rd f P" and "P s" and "readFullLoop rd b s dst n e = Some (dst', n', e', b', s')"
  shows "readFullLoop rd b (f s) dst n e = Some (dst', n', e', b', f s') \<and> P s'"
  using readFullLoop_commutes_aux [OF assms(3), of f P] assms(1,2) by simp

lemma readChunkLine_commutes:
  assumes c: "commutes rd f P" and Ps: "P s"
    and r: "readChunkLine rd cp b s = Some (res, cp', b', s')"
  shows "readChunkLine rd cp b (f s) = Some (res, cp', b', f s') \<and> P s'"
proof -
  from r obtain v e b1 s1 where rs: "ReadSlice rd b s = Some (v, e, b1, s1)"
    by (auto simp: readChunkLine_def split: option.splits)
  from ReadSlice_commutes [OF c Ps rs] have rs': "ReadSlice rd b (f s) = Some (v, e, b1, f s1)" and P1: "P s1"
    by auto
  from r rs rs' P1 show ?thesis
    by (auto simp: readChunkLine_def Let_def split: option.splits if_splits)
qed

lemma beginChunk_commutes:
  assumes c: "commutes rd f P" and Ps: "P s"
    and r: "beginChunk rd cp b s = Some (cp', b', s')"
  shows "beginChunk rd cp b (f s) = Some (cp', b', f s') \<and> P s'"
proof -
  from r obtain res cp1 b1 s1 where rl: "readChunkLine rd cp b s = Some (res, cp1, b1, s1)"
    by (auto simp: beginChunk_def split: option.splits)
  from readChunkLine_commutes [OF c Ps rl]
  have rl': "readChunkLine rd cp b (f s) = Some (res, cp1, b1, f s1)" and P1: "P s1" by auto
  from r rl rl' P1 show ?thesis
    by (auto simp: beginChunk_def split: sum.splits)
qed

lemma checkEndBlock_commutes:
  assumes c: "commutes rd f P" and Ps: "P s"
    and r: "checkEndBlock rd cp b s = Some fl"
  shows "checkEndBlock rd cp b (f s) = Some (map_flow (\<lambda>(cp, b, s). (cp, b, f s)) fl) \<and>
         P (flowState fl)"
proof (cases "unwrittenBytesInBuffer cp = 0 \<and>
              \<not> (outputBytesFromBody cp > 0 \<and> Buffered b < 2 \<and> unwrittenBytesInBuffer cp = 0)")
  case False
  with r Ps show ?thesis
    by (auto simp: checkEndBlock_def Let_def split: if_splits)
next
  case True
  with r obtain dst n e b1 s1 where rf: "readFullLoop rd b s (cpBuf cp) 0 None = Some (dst, n, e, b1, s1)"
    by (auto simp: checkEndBlock_def Let_def split: option.splits if_splits)
  from readFullLoop_commutes [OF c Ps rf]
  have rf': "readFullLoop rd b (f s) (cpBuf cp) 0 None = Some (dst, n, e, b1, f s1)" and P1: "P s1"
    by auto
  from r True rf rf' P1 show ?thesis
    by (auto simp: checkEndBlock_def Let_def split: if_splits)
qed

lemma pendingLineBlock_commutes:
  "pendingLineBlock cp b (f s) = map_flow (\<lambda>(cp, b, s). (cp, b, f s)) (pendingLineBlock cp b s)"
  by (simp add: pendingLineBlock_def Let_def)

lemma pendingLineBlock_state: "flowState (pendingLineBlock cp b s) = s"
  by (simp add: pendingLineBlock_def Let_def)

lemma bodyBlock_commutes:
  assumes c: "commutes rd f P" and Ps: "P s"
    and r: "bodyBlock rd cp b s = (cp', b', s')"
  shows "bodyBlock rd cp b (f s) = (cp', b', f s') \<and> P s'"
proof -
  let ?k = "if outputSlice cp > unreadBytesInChunk cp then unreadBytesInChunk cp else outputSlice cp"
  obtain d e b1 s1 where br: "bufioRead rd b s ?k = (d, e, b1, s1)"
    by (cases "bufioRead rd b s ?k") auto
  from bufioRead_commutes [OF c Ps br]
  have br': "bufioRead rd b (f s) ?k = (d, e, b1, f s1)" and P1: "P s1" by auto
  from r br br' P1 show ?thesis
    by (auto simp: bodyBlock_def Let_def)
qed

lemma chunkLoop_commutes_aux:
  assumes "chunkLoop rd cp b s = Some y"
  shows "commutes rd f P \<longrightarrow> P s \<longrightarrow>
       (case y of (cp', b', s') \<Rightarrow> chunkLoop rd cp b (f s) = Some (cp', b', f s') \<and> P s')"
proof (rule chunkLoop.raw_induct [where P = "\<lambda>rd cp b s y. commutes rd f P \<longrightarrow> P s \<longrightarrow>
       (case y of (cp', b', s') \<Rightarrow> chunkLoop rd cp b (f s) = Some (cp', b', f s') \<and> P s')",
       OF _ assms])
  fix cl :: "'a readFn \<Rightarrow> chunkedReader \<Rightarrow> bufioReader \<Rightarrow> 'a \<Rightarrow> (chunkedReader \<times> bufioReader \<times> 'a) option"
  fix rd cp b s y
  assume IH: "\<And>rd' cp' b' s' y'. cl rd' cp' b' s' = Some y' \<Longrightarrow>
      commutes rd' f P \<longrightarrow> P s' \<longrightarrow>
       (case y' of (cp'', b'', s'') \<Rightarrow> chunkLoop rd' cp' b' (f s') = Some (cp'', b'', f s'') \<and> P s'')"
  assume body: "(if cpErr cp \<noteq> None then Some (cp, b, s)
      else case if checkEnd cp then checkEndBlock rd cp b s
                else Some (Next (cp, b, s)) of
           None \<Rightarrow> None | Some (Break x) \<Rightarrow> Some x
           | Some (Continue (cp1, b1, s1)) \<Rightarrow> cl rd cp1 b1 s1
           | Some (Next (cp1, b1, s1)) \<Rightarrow>
               case if 0 < unwrittenBytesInBuffer cp1
                    then pendingLineBlock cp1 b1 s1
                    else Next (cp1, b1, s1) of
               Break x \<Rightarrow> Some x
               | Continue (cp2, b2, s2) \<Rightarrow> cl rd cp2 b2 s2
               | Next (cp2, b2, s2) \<Rightarrow>
                   if unreadBytesInChunk cp2 = 0
                   then if 0 < outputBytesFromBody cp2 \<and> \<not> chunkHeaderAvailable b2
                        then Some (cp2, b2, s2)
                        else case beginChunk rd cp2 b2 s2 of None \<Rightarrow> None
                             | Some (cp3, b3, s3) \<Rightarrow> cl rd cp3 b3 s3
                   else if outputSlice cp2 = 0 then Some (cp2, b2, s2)
                        else case bodyBlock rd cp2 b2 s2 of
                             (cp3, b3, s3) \<Rightarrow> cl rd cp3 b3 s3) =
     Some y"
  let ?F = "\<lambda>(cp, b, s). (cp, b, f s)"
  show "commutes rd f P \<longrightarrow> P s \<longrightarrow>
       (case y of (cp', b', s') \<Rightarrow> chunkLoop rd cp b (f s) = Some (cp', b', f s') \<and> P s')"
  proof (intro impI)
    assume c: "commutes rd f P" and Ps: "P s"
    have rec: "\<And>cp1 b1 s1. P s1 \<Longrightarrow> cl rd cp1 b1 s1 = Some y \<Longrightarrow>
          (case y of (cp', b', s') \<Rightarrow> chunkLoop rd cp1 b1 (f s1) = Some (cp', b', f s') \<and> P s')"
      using IH c by blast
    show "case y of (cp', b', s') \<Rightarrow> chunkLoop rd cp b (f s) = Some (cp', b', f s') \<and> P s'"
    proof (cases "cpErr cp \<noteq> None")
      case True
      with body Ps show ?thesis by (subst chunkLoop.simps) auto
    next
      case noErr: False
      let ?first = "if checkEnd cp then checkEndBlock rd cp b s else Some (Next (cp, b, s))"
      let ?first' = "if checkEnd cp then checkEndBlock rd cp b (f s) else Some (Next (cp, b, f s))"
      from body noErr obtain fl1 where f1: "?first = Some fl1"
        by (cases ?first) (simp_all del: split_paired_All split_paired_Ex)
      have f1': "?first' = Some (map_flow ?F fl1)" and P1: "P (flowState fl1)"
        using f1 checkEndBlock_commutes [OF c Ps, of cp b fl1] Ps
        by (auto split: if_splits)
      have unfold1: "chunkLoop rd cp b (f s) =
          (case map_flow ?F fl1 of
             Break x \<Rightarrow> Some x
           | Continue (cp1, b1, s1) \<Rightarrow> chunkLoop rd cp1 b1 s1
           | Next (cp1, b1, s1) \<Rightarrow>
               case if 0 < unwrittenBytesInBuffer cp1
                    then pendingLineBlock cp1 b1 s1
                    else Next (cp1, b1, s1) of
               Break x \<Rightarrow> Some x
               | Continue (cp2, b2, s2) \<Rightarrow> chunkLoop rd cp2 b2 s2
               | Next (cp2, b2, s2) \<Rightarrow>
                   if unreadBytesInChunk cp2 = 0
                   then if 0 < outputBytesFromBody cp2 \<and> \<not> chunkHeaderAvailable b2
                        then Some (cp2, b2, s2)
                        else case beginChunk rd cp2 b2 s2 of None \<Rightarrow> None
                             | Some (cp3, b3, s3) \<Rightarrow> chunkLoop rd cp3 b3 s3
                   else if outputSlice cp2 = 0 then Some (cp2, b2, s2)
                        else case bodyBlock rd cp2 b2 s2 of
                             (cp3, b3, s3) \<Rightarrow> chunkLoop rd cp3 b3 s3)"
        by (subst chunkLoop.simps) (simp only: noErr if_False f1' option.case)
      have body1: "(case fl1 of
             Break x \<Rightarrow> Some x
           | Continue (cp1, b1, s1) \<Rightarrow> cl rd cp1 b1 s1
           | Next (cp1, b1, s1) \<Rightarrow>
               case if 0 < unwrittenBytesInBuffer cp1
                    then pendingLineBlock cp1 b1 s1
                    else Next (cp1, b1, s1) of
               Break x \<Rightarrow> Some x
               | Continue (cp2, b2, s2) \<Rightarrow> cl rd cp2 b2 s2
               | Next (cp2, b2, s2) \<Rightarrow>
                   if unreadBytesInChunk cp2 = 0
                   then if 0 < outputBytesFromBody cp2 \<and> \<not> chunkHeaderAvailable b2
                        then Some (cp2, b2, s2)
                        else case beginChunk rd cp2 b2 s2 of None \<Rightarrow> None
                             | Some (cp3, b3, s3) \<Rightarrow> cl rd cp3 b3 s3
                   else if outputSlice cp2 = 0 then Some (cp2, b2, s2)
                        else case bodyBlock rd cp2 b2 s2 of
                             (cp3, b3, s3) \<Rightarrow> cl rd cp3 b3 s3) = Some y"
        using body noErr f1 by (simp only: if_False option.case)
      show ?thesis
      proof (cases fl1)
        case (Break x)
        obtain cpx bx sx where x: "x = (cpx, bx, sx)" by (cases x) auto
        from body1 Break x have y: "y = (cpx, bx, sx)" by simp
        from P1 Break x have "P sx" by simp
        then show ?thesis
          unfolding unfold1 y Break x by simp
      next
        case (Continue x)
        obtain cpx bx sx where x: "x = (cpx, bx, sx)" by (cases x) auto
        from body1 Continue x have "cl rd cpx bx sx = Some y" by simp
        from rec [OF _ this] P1 Continue x show ?thesis
          by (simp add: unfold1)
      next
        case (Next x)
        obtain cp1 b1 s1 where x: "x = (cp1, b1, s1)" by (cases x) auto
        from P1 Next x have Ps1: "P s1" by simp
        let ?second = "if 0 < unwrittenBytesInBuffer cp1 then pendingLineBlock cp1 b1 s1
                       else Next (cp1, b1, s1)"
        let ?second' = "if 0 < unwrittenBytesInBuffer cp1 then pendingLineBlock cp1 b1 (f s1)
                       else Next (cp1, b1, f s1)"
        have s2': "?second' = map_flow ?F ?second"
          by (simp add: pendingLineBlock_commutes)
        have st2: "flowState ?second = s1"
          by (simp add: pendingLineBlock_state)
        have unfold2: "chunkLoop rd cp b (f s) =
            (case map_flow ?F ?second of
               Break x \<Rightarrow> Some x
               | Continue (cp2, b2, s2) \<Rightarrow> chunkLoop rd cp2 b2 s2
               | Next (cp2, b2, s2) \<Rightarrow>
                   if unreadBytesInChunk cp2 = 0
                   then if 0 < outputBytesFromBody cp2 \<and> \<not> chunkHeaderAvailable b2
                        then Some (cp2, b2, s2)
                        else case beginChunk rd cp2 b2 s2 of None \<Rightarrow> None
                             | Some (cp3, b3, s3) \<Rightarrow> chunkLoop rd cp3 b3 s3
                   else if outputSlice cp2 = 0 then Some (cp2, b2, s2)
                        else case bodyBlock rd cp2 b2 s2 of
                             (cp3, b3, s3) \<Rightarrow> chunkLoop rd cp3 b3 s3)"
          unfolding unfold1 Next x using s2' by simp
        have body2: "(case ?second of
               Break x \<Rightarrow> Some x
               | Continue (cp2, b2, s2) \<Rightarrow> cl rd cp2 b2 s2
               | Next (cp2, b2, s2) \<Rightarrow>
                   if unreadBytesInChunk cp2 = 0
                   then if 0 < outputBytesFromBody cp2 \<and> \<not> chunkHeaderAvailable b2
                        then Some (cp2, b2, s2)
                        else case beginChunk rd cp2 b2 s2 of None \<Rightarrow> None
                             | Some (cp3, b3, s3) \<Rightarrow> cl rd cp3 b3 s3
                   else if outputSlice cp2 = 0 then Some (cp2, b2, s2)
                        else case bodyBlock rd cp2 b2 s2 of
                             (cp3, b3, s3) \<Rightarrow> cl rd cp3 b3 s3) = Some y"
          using body1 Next x by simp
        show ?thesis
        proof (cases ?second)
          case (Break z)
          obtain cpz bz sz where z: "z = (cpz, bz, sz)" by (cases z) auto
          from st2 Break z have sz: "sz = s1" by simp
          from body2 Break z have y: "y = (cpz, bz, sz)" by simp
          from Ps1 sz show ?thesis
            unfolding unfold2 y Break z by simp
        next
          case (Continue z)
          obtain cpz bz sz where z: "z = (cpz, bz, sz)" by (cases z) auto
          from st2 Continue z have sz: "sz = s1" by simp
          from body2 Continue z have "cl rd cpz bz sz = Some y" by simp
          from rec [OF _ this] Ps1 sz Continue z show ?thesis
            unfolding unfold2 by simp
        next
          case Next2: (Next z)
          obtain cp2 b2 s2 where z: "z = (cp2, b2, s2)" by (cases z) auto
          from st2 Next2 z have sz: "s2 = s1" by simp
          have Ps2: "P s2" using Ps1 sz by simp
          have unfold3: "chunkLoop rd cp b (f s) =
                 (if unreadBytesInChunk cp2 = 0
                   then if 0 < outputBytesFromBody cp2 \<and> \<not> chunkHeaderAvailable b2
                        then Some (cp2, b2, f s2)
                        else case beginChunk rd cp2 b2 (f s2) of None \<Rightarrow> None
                             | Some (cp3, b3, s3) \<Rightarrow> chunkLoop rd cp3 b3 s3
                   else if outputSlice cp2 = 0 then Some (cp2, b2, f s2)
                        else case bodyBlock rd cp2 b2 (f s2) of
                             (cp3, b3, s3) \<Rightarrow> chunkLoop rd cp3 b3 s3)"
            unfolding unfold2 Next2 z by simp
          have body3: "(if unreadBytesInChunk cp2 = 0
                   then if 0 < outputBytesFromBody cp2 \<and> \<not> chunkHeaderAvailable b2
                        then Some (cp2, b2, s2)
                        else case beginChunk rd cp2 b2 s2 of None \<Rightarrow> None
                             | Some (cp3, b3, s3) \<Rightarrow> cl rd cp3 b3 s3
                   else if outputSlice cp2 = 0 then Some (cp2, b2, s2)
                        else case bodyBlock rd cp2 b2 s2 of
                             (cp3, b3, s3) \<Rightarrow> cl rd cp3 b3 s3) = Some y"
            using body2 Next2 z by simp
          show ?thesis
          proof (cases "unreadBytesInChunk cp2 = 0")
            case u0: True
            show ?thesis
            proof (cases "0 < outputBytesFromBody cp2 \<and> \<not> chunkHeaderAvailable b2")
              case True
              have "chunkLoop rd cp b (f s) = Some (cp2, b2, f s2)"
                by (simp only: unfold3 if_P [OF u0] if_P [OF True])
              moreover have "y = (cp2, b2, s2)"
                using body3 by (simp only: if_P [OF u0] if_P [OF True]) simp
              ultimately show ?thesis using Ps2 by simp
            next
              case False
              with body3 u0 obtain cp3 b3 s3 where bc: "beginChunk rd cp2 b2 s2 = Some (cp3, b3, s3)"
                and r: "cl rd cp3 b3 s3 = Some y"
                by (auto split: option.splits)
              from beginChunk_commutes [OF c Ps2 bc]
              have bc': "beginChunk rd cp2 b2 (f s2) = Some (cp3, b3, f s3)" and P3: "P s3" by auto
              have "chunkLoop rd cp b (f s) = chunkLoop rd cp3 b3 (f s3)"
                by (simp only: unfold3 if_P [OF u0] if_not_P [OF False] bc' option.case prod.case)
              with rec [OF P3 r] show ?thesis by simp
            qed
          next
            case u1: False
            show ?thesis
            proof (cases "outputSlice cp2 = 0")
              case True
              have "chunkLoop rd cp b (f s) = Some (cp2, b2, f s2)"
                by (simp only: unfold3 if_not_P [OF u1] if_P [OF True])
              moreover have "y = (cp2, b2, s2)"
                using body3 by (simp only: if_not_P [OF u1] if_P [OF True]) simp
              ultimately show ?thesis using Ps2 by simp
            next
              case False
              obtain cp3 b3 s3 where bb: "bodyBlock rd cp2 b2 s2 = (cp3, b3, s3)"
                by (cases "bodyBlock rd cp2 b2 s2") auto
              with body3 u1 False have r: "cl rd cp3 b3 s3 = Some y" by simp
              from bodyBlock_commutes [OF c Ps2 bb]
              have bb': "bodyBlock rd cp2 b2 (f s2) = (cp3, b3, f s3)" and P3: "P s3" by auto
              have "chunkLoop rd cp b (f s) = chunkLoop rd cp3 b3 (f s3)"
                by (simp only: unfold3 if_not_P [OF u1] if_not_P [OF False] bb' prod.case)
              with rec [OF P3 r] show ?thesis by simp
            qed
          qed
        qed
      qed
    qed
  qed
qed

lemma chunkedRead_commutes:
  assumes c: "commutes rd f P" and Ps: "P s"
    and r: "chunkedRead rd (cp, b, s) k = Some (d, e, (cp', b', s'))"
  shows "chunkedRead rd (cp, b, f s) k = Some (d, e, (cp', b', f s')) \<and> P s'"
proof -
  let ?cp0 = "cp\<lparr>outputSlice := k, outputWritten := [], outputTotalBytesWritten := 0,
                      outputBytesFromBody := 0\<rparr>"
  from r have l: "chunkLoop rd ?cp0 b s = Some (cp', b', s')" and d: "d = outputWritten cp'"
    and e: "e = cpErr cp'"
    by (auto simp: chunkedRead_def split: option.splits)
  from chunkLoop_commutes_aux [OF l, of f P] c Ps
  have "chunkLoop rd ?cp0 b (f s) = Some (cp', b', f s')" and "P s'" by auto
  with d e show ?thesis by (simp add: chunkedRead_def)
qed

lemma Read_drained:
  assumes "bufferUsed h"
  shows "Read ev h k =
     (case lastError h of
        Some e \<Rightarrow> ([], Some e, h)
      | None \<Rightarrow>
          (case srcRead (reader h) k of
             (data, e, src') \<Rightarrow>
               (data, e,
                h\<lparr>reader := src', lastError := e,
                  totalBytes := totalBytes h + int (length data)\<rparr>)))"
  using assms
  by (auto simp: Read_def Let_def split: option.splits prod.splits)

lemma Read_commutes_headers:
  "commutes (Read ev) (\<lambda>h. h\<lparr>headers := M\<rparr>) bufferUsed"
  unfolding commutes_def
  by (auto simp: Read_drained split: option.splits prod.splits)

lemma limitRead_commutes:
  assumes c: "commutes rd f P" and Ps: "P s" and r: "limitRead rd N s k = (d, e, N', s')"
  shows "limitRead rd N (f s) k = (d, e, N', f s') \<and> P s'"
proof (cases "N \<le> 0")
  case True
  with r Ps show ?thesis by (auto simp: limitRead_def)
next
  case False
  let ?k = "if int k > N then nat N else k"
  obtain d1 e1 s1 where r1: "rd s ?k = (d1, e1, s1)" by (cases "rd s ?k") auto
  from commutesD [OF c Ps r1] r r1 False show ?thesis
    by (auto simp: limitRead_def)
qed

lemma multiReadChunked_commutes:
  assumes Ps: "bufferUsed h" and r: "multiReadChunked ev ch h k = Some (d, e, br', h')"
  shows "multiReadChunked ev ch (h\<lparr>headers := M\<rparr>) k = Some (d, e, br', h'\<lparr>headers := M\<rparr>) \<and>
         bufferUsed h'"
proof (cases ch)
  case None
  with r Ps show ?thesis by (auto simp: multiReadChunked_def)
next
  case (Some p)
  obtain cp b where p: "p = (cp, b)" by (cases p) auto
  from r Some p obtain d1 e1 cp1 b1 h1 where
    cr: "chunkedRead (Read ev) (cp, b, h) k = Some (d1, e1, (cp1, b1, h1))"
    by (auto simp: multiReadChunked_def split: option.splits)
  from chunkedRead_commutes [OF Read_commutes_headers [of ev M] Ps cr]
  have cr': "chunkedRead (Read ev) (cp, b, h\<lparr>headers := M\<rparr>) k = Some (d1, e1, (cp1, b1, h1\<lparr>headers := M\<rparr>))"
    and P1: "bufferUsed h1" by auto
  from r Some p cr cr' P1 show ?thesis
    by (auto simp: multiReadChunked_def split: if_splits)
qed

lemma multiRead_commutes:
  assumes Ps: "bufferUsed h" and r: "multiRead ev lim ch h k = Some (d, e, br', h')"
  shows "multiRead ev lim ch (h\<lparr>headers := M\<rparr>) k = Some (d, e, br', h'\<lparr>headers := M\<rparr>) \<and>
         bufferUsed h'"
proof (cases lim)
  case None
  with r multiReadChunked_commutes [OF Ps, of ev ch k d e br' h' M] show ?thesis
    by (simp add: multiRead_def)
next
  case (Some N)
  obtain d1 e1 N1 h1 where lr: "limitRead (Read ev) N h k = (d1, e1, N1, h1)"
    by (cases "limitRead (Read ev) N h k") auto
  from limitRead_commutes [OF Read_commutes_headers [of ev M] Ps lr]
  have lr': "limitRead (Read ev) N (h\<lparr>headers := M\<rparr>) k = (d1, e1, N1, h1\<lparr>headers := M\<rparr>)"
    and P1: "bufferUsed h1" by auto
  show ?thesis
  proof (cases "e1 = Some EOF \<and> length d1 = 0")
    case True
    with r Some lr have "multiReadChunked ev ch h1 k = Some (d, e, br', h')"
      by (simp add: multiRead_def)
    from multiReadChunked_commutes [OF P1 this, of M] True Some lr' show ?thesis
      by (simp add: multiRead_def)
  next
    case False
    with r Some lr lr' P1 show ?thesis
      by (auto simp: multiRead_def split: if_splits)
  qed
qed

lemma bodyRead_commutes:
  assumes Ps: "bufferUsed h" and r: "bodyRead ev (br, h) k = Some (d, e, br', h')"
  shows "bodyRead ev (br, h\<lparr>headers := M\<rparr>) k = Some (d, e, br', h'\<lparr>headers := M\<rparr>) \<and>
         bufferUsed h'"
proof (cases br)
  case SelfReader
  obtain d1 e1 h1 where r1: "Read ev h k = (d1, e1, h1)" by (cases "Read ev h k") auto
  from commutesD [OF Read_commutes_headers [of ev M] Ps r1] r r1 SelfReader show ?thesis
    by (auto simp: bodyRead_def)
next
  case (LimitReader N)
  obtain d1 e1 N1 h1 where lr: "limitRead (Read ev) N h k = (d1, e1, N1, h1)"
    by (cases "limitRead (Read ev) N h k") auto
  from limitRead_commutes [OF Read_commutes_headers [of ev M] Ps lr] r lr LimitReader show ?thesis
    by (auto simp: bodyRead_def)
next
  case (MultiReader lim ch)
  with r multiRead_commutes [OF Ps, of ev lim ch k d e br' h' M] show ?thesis
    by (simp add: bodyRead_def)
qed

lemma bodyReads_commutes:
  "bufferUsed h \<Longrightarrow> bodyReads ev (br, h) ks = Some rs \<Longrightarrow>
     bodyReads ev (br, h\<lparr>headers := M\<rparr>) ks = Some rs"
proof (induction ks arbitrary: br h rs)
  case Nil
  then show ?case by simp
next
  case (Cons k ks)
  from Cons.prems(2) obtain d e br1 h1 rs1 where
    r: "bodyRead ev (br, h) k = Some (d, e, br1, h1)"
    and rest: "bodyReads ev (br1, h1) ks = Some rs1" and rs: "rs = (d, e) # rs1"
    by (auto split: option.splits)
  from bodyRead_commutes [OF Cons.prems(1) r, of M]
  have r': "bodyRead ev (br, h\<lparr>headers := M\<rparr>) k = Some (d, e, br1, h1\<lparr>headers := M\<rparr>)"
    and P1: "bufferUsed h1" by auto
  from Cons.IH [OF P1 rest] r' rs show ?case by simp
qed

lemma bodyReads_headers:
  assumes "bufferUsed h"
  shows "bodyReads ev (br, h\<lparr>headers := M\<rparr>) ks = bodyReads ev (br, h) ks"
proof (cases "bodyReads ev (br, h) ks")
  case (Some rs)
  with bodyReads_commutes [OF assms] show ?thesis by simp
next
  case None
  show ?thesis
  proof (cases "bodyReads ev (br, h\<lparr>headers := M\<rparr>) ks")
    case None': None
    with None show ?thesis by simp
  next
    case (Some rs)
    have "bufferUsed (h\<lparr>headers := M\<rparr>)" using assms by simp
    from bodyReads_commutes [OF this Some, of "headers h"]
    have "bodyReads ev (br, h) ks = Some rs" by simp
    with None show ?thesis by simp
  qed
qed

text \<open>
  Claim C8.  If the parse buffer has been fully drained to the consumer (\<open>bufferUsed\<close>) when
  a header replacement is requested, by \<open>replaceHeader\<close> or by \<open>SetHostHeader\<close>, the
  replacement returns without error and leaves the buffer contents, \<open>bufWritePos\<close> and
  \<open>bodyStartsIndex\<close> as they were; \<open>GetReader\<close> hands out the same body reader as before;
  and every sequence of reads of a body reader, whatever its kind and whatever the sizes
  asked for, produces on the processor after the replacement the same bytes and errors, or
  the same absence of a result, as on the processor without the replacement.
\<close>

theorem replaceHeader_drained_frame:
  assumes "bufferUsed h"
  shows "\<exists>h' h''.
     replaceHeader ev n v h = Returns h' \<and>
     buf h' = buf h \<and> bufWritePos h' = bufWritePos h \<and> bodyStartsIndex h' = bodyStartsIndex h \<and>
     GetReader ev h' = (headerBodyReader h, h') \<and>
     (\<forall>br ks. bodyReads ev (br, h') ks = bodyReads ev (br, h) ks) \<and>
     SetHostHeader ev v h = Returns h'' \<and>
     buf h'' = buf h \<and> bufWritePos h'' = bufWritePos h \<and> bodyStartsIndex h'' = bodyStartsIndex h \<and>
     GetReader ev h'' = (headerBodyReader h, h'') \<and>
     (\<forall>br ks. bodyReads ev (br, h'') ks = bodyReads ev (br, h) ks)"
proof -
  have frame: "\<And>M. buf (h\<lparr>headers := M\<rparr>) = buf h \<and>
        bufWritePos (h\<lparr>headers := M\<rparr>) = bufWritePos h \<and>
        bodyStartsIndex (h\<lparr>headers := M\<rparr>) = bodyStartsIndex h \<and>
        GetReader ev (h\<lparr>headers := M\<rparr>) = (headerBodyReader h, h\<lparr>headers := M\<rparr>) \<and>
        (\<forall>br ks. bodyReads ev (br, h\<lparr>headers := M\<rparr>) ks = bodyReads ev (br, h) ks)"
    using assms bodyReads_headers [OF assms]
    by (simp add: GetReader_def ReadHeadersIfNeeded_drained)
  obtain M1 where r: "replaceHeader ev n v h = Returns (h\<lparr>headers := M1\<rparr>)"
    using replaceHeader_drained [OF assms] by blast
  obtain M2 where s: "SetHostHeader ev v h = Returns (h\<lparr>headers := M2\<rparr>)"
    using SetHostHeader_drained [OF assms] by blast
  from r s frame [of M1] frame [of M2] show ?thesis by blast
qed

theorem replaceHeader_drained_frame_witness:
  "bufferUsed (afterRead (exampleProcessor
       (message ''POST / HTTP/1.1'' [''Host: domain.io'', ''Content-Length: 12''] ''Body is here'') 60) 60) \<and>
   (case replaceHeader exampleEnv ''Host'' ''a.b.com'' (afterRead (exampleProcessor
       (message ''POST / HTTP/1.1'' [''Host: domain.io'', ''Content-Length: 12''] ''Body is here'') 60) 60) of
      Returns h' \<Rightarrow>
        bufWritePos h' = 60 \<and> bodyStartsIndex h' = 56 \<and>
        fst (GetReader exampleEnv h') = Some (LimitReader 68) \<and>
        bodyReads exampleEnv (LimitReader 8, h') [100, 100] =
          Some [('' is here'', None), ([], Some EOF)]
    | _ \<Rightarrow> False) \<and>
   (case SetHostHeader exampleEnv ''a.b.com'' (afterRead (exampleProcessor
       (message ''POST / HTTP/1.1'' [''Host: domain.io'', ''Content-Length: 12''] ''Body is here'') 60) 60) of
      Returns h' \<Rightarrow>
        bufWritePos h' = 60 \<and> bodyStartsIndex h' = 56 \<and>
        fst (GetReader exampleEnv h') = Some (LimitReader 68) \<and>
        bodyReads exampleEnv (LimitReader 8, h') [100, 100] =
          Some [('' is here'', None), ([], Some EOF)]
    | _ \<Rightarrow> False)"
proof -
  let ?h = "afterRead (exampleProcessor
       (message ''POST / HTTP/1.1'' [''Host: domain.io'', ''Content-Length: 12''] ''Body is here'') 60) 60"
  have a: "bufferUsed ?h" by code_simp
  have b: "bufWritePos ?h = 60" by code_simp
  have c: "bodyStartsIndex ?h = 56" by code_simp
  have d0: "case headerBodyReader ?h of Some (LimitReader n) \<Rightarrow> n = 68 | _ \<Rightarrow> False"
    by code_simp
  have d: "headerBodyReader ?h = Some (LimitReader 68)"
    using d0 by (auto split: option.splits bodyReader.splits)
  have e: "bodyReads exampleEnv (LimitReader 8, ?h) [100, 100] =
          Some [('' is here'', None), ([], Some EOF)]" by code_simp
  from replaceHeader_drained_frame [OF a, of exampleEnv "''Host''" "''a.b.com''"]
  obtain h' h'' where
    r: "replaceHeader exampleEnv ''Host'' ''a.b.com'' ?h = Returns h'"
      "bufWritePos h' = bufWritePos ?h" "bodyStartsIndex h' = bodyStartsIndex ?h"
      "GetReader exampleEnv h' = (headerBodyReader ?h, h')"
      "bodyReads exampleEnv (LimitReader 8, h') [100, 100] = bodyReads exampleEnv (LimitReader 8, ?h) [100, 100]"
    and s: "SetHostHeader exampleEnv ''a.b.com'' ?h = Returns h''"
      "bufWritePos h'' = bufWritePos ?h" "bodyStartsIndex h'' = bodyStartsIndex ?h"
      "GetReader exampleEnv h'' = (headerBodyReader ?h, h'')"
      "bodyReads exampleEnv (LimitReader 8, h'') [100, 100] = bodyReads exampleEnv (LimitReader 8, ?h) [100, 100]"
    by blast
  have 1: "case replaceHeader exampleEnv ''Host'' ''a.b.com'' ?h of
      Returns h' \<Rightarrow>
        bufWritePos h' = 60 \<and> bodyStartsIndex h' = 56 \<and>
        fst (GetReader exampleEnv h') = Some (LimitReader 68) \<and>
        bodyReads exampleEnv (LimitReader 8, h') [100, 100] =
          Some [('' is here'', None), ([], Some EOF)]
    | _ \<Rightarrow> False"
    unfolding r(1) using r(2-5) b c d e by simp
  have 2: "case SetHostHeader exampleEnv ''a.b.com'' ?h of
      Returns h' \<Rightarrow>
        bufWritePos h' = 60 \<and> bodyStartsIndex h' = 56 \<and>
        fst (GetReader exampleEnv h') = Some (LimitReader 68) \<and>
        bodyReads exampleEnv (LimitReader 8, h') [100, 100] =
          Some [('' is here'', None), ([], Some EOF)]
    | _ \<Rightarrow> False"
    unfolding s(1) using s(2-5) b c d e by simp
  from a 1 2 show ?thesis by (intro conjI)
qed

end
